theory Spec2Isabelle
  imports Main "HOL-Library.Char_ord" "HOL-Library.List_Lexorder"
begin

section \<open>JavaScript containers used by the policy core\<close>

text \<open>
  Strings are \<^typ>\<open>string\<close>: one \<^typ>\<open>char\<close> per code unit, so the development covers
  identifiers whose code units are below 256 (ARNs are ASCII).

  A JavaScript \<open>Set\<close> keeps its members in insertion order and ignores a second \<open>add\<close> of
  a member; it is modelled as the list of its members in insertion order.
  \<open>new Set(xs)\<close> adds the elements of \<open>xs\<close> from left to right, and \<open>[...set]\<close> or
  \<open>Array.from(set)\<close> reads the members back in that order.
\<close>

definition Set_add :: "'a \<Rightarrow> 'a list \<Rightarrow> 'a list" where
  "Set_add x s = (if x \<in> set s then s else s @ [x])"

definition new_Set :: "'a list \<Rightarrow> 'a list" where
  "new_Set xs = fold Set_add xs []"

text \<open>
  A JavaScript \<open>Map\<close> iterates in insertion order; \<open>set\<close> on a present key replaces the value
  in place, \<open>set\<close> on a new key appends, \<open>delete\<close> removes the entry. It is modelled as an
  association list.
\<close>

type_synonym ('k, 'v) js_map = "('k \<times> 'v) list"

definition Map_get :: "('k, 'v) js_map \<Rightarrow> 'k \<Rightarrow> 'v option" where
  "Map_get m k = map_of m k"

definition Map_has :: "('k, 'v) js_map \<Rightarrow> 'k \<Rightarrow> bool" where
  "Map_has m k = (Map_get m k \<noteq> None)"

fun Map_set :: "'k \<Rightarrow> 'v \<Rightarrow> ('k, 'v) js_map \<Rightarrow> ('k, 'v) js_map" where
  "Map_set k v [] = [(k, v)]"
| "Map_set k v (p # ps) = (if fst p = k then (k, v) # ps else p # Map_set k v ps)"

definition Map_delete :: "'k \<Rightarrow> ('k, 'v) js_map \<Rightarrow> ('k, 'v) js_map" where
  "Map_delete k m = filter (\<lambda>p. fst p \<noteq> k) m"


definition Map_keys :: "('k, 'v) js_map \<Rightarrow> 'k list" where
  "Map_keys m = map fst m"

section \<open>Data model (src/types/index.ts)\<close>

datatype category = Read | Write | Admin

record AWSAction =
  action_id :: string
  action_name :: string
  action_description :: "string option"
  action_category :: category
  action_dependencies :: "string list option"
  requiresARN :: "bool option"

record AWSResource =
  res_id :: string
  res_name :: string
  res_service :: string
  res_icon :: "string option"
  res_description :: "string option"
  res_arnPattern :: "string option"
  res_actions :: "AWSAction list"

record ARNItem =
  item_arn :: string
  item_service :: string
  item_resourceType :: "string option"
  item_displayName :: "string option"
  item_description :: "string option"
  item_tags :: "(string \<times> string) list option"

record Selection =
  sel_resourceId :: string
  sel_actions :: "string list"
  sel_arn :: "string option"

datatype effect = Allow | Deny




record ValidationResult =
  valid :: bool
  message :: "string option"
  suggestions :: "string list option"

section \<open>The engine state (class PolicyCore)\<close>

text \<open>
  The private fields of \<open>PolicyCore\<close>. The field \<open>dependencies\<close> is a \<open>Map\<close> that no method
  writes; \<open>dependencyResolver\<close> is \<open>undefined\<close> until \<open>setDependencyResolver\<close> is called.
  The registered resolver is taken to be a pure function of the action list.
\<close>

record PolicyCore =
  resources :: "(string, AWSResource) js_map"
  selections :: "(string, Selection) js_map"
  arnList :: "ARNItem list"
  dependencies :: "(string, string list) js_map"
  dependencyResolver :: "(string list \<Rightarrow> string list) option"

definition reset :: "PolicyCore \<Rightarrow> PolicyCore" where
  "reset s = s\<lparr>resources := [], selections := [], arnList := []\<rparr>"

text \<open>The constructor: the field initialisers, then \<open>reset()\<close>.\<close>

definition new_PolicyCore :: PolicyCore where
  "new_PolicyCore =
     reset \<lparr>resources = [], selections = [], arnList = [], dependencies = [],
            dependencyResolver = None\<rparr>"

definition addResource :: "PolicyCore \<Rightarrow> AWSResource \<Rightarrow> PolicyCore" where
  "addResource s resource =
     (let s1 = s\<lparr>resources := Map_set (res_id resource) resource (resources s)\<rparr>
      in if \<not> Map_has (selections s1) (res_id resource)
         then s1\<lparr>selections :=
                   Map_set (res_id resource)
                     \<lparr>sel_resourceId = res_id resource, sel_actions = [], sel_arn = None\<rparr>
                     (selections s1)\<rparr>
         else s1)"

definition removeResource :: "PolicyCore \<Rightarrow> string \<Rightarrow> PolicyCore" where
  "removeResource s resourceId =
     s\<lparr>resources := Map_delete resourceId (resources s),
       selections := Map_delete resourceId (selections s)\<rparr>"

text \<open>
  \<open>setActions\<close> and \<open>setARN\<close> look the selection up and assign to a field of the object
  found; the map holds that object, so the entry is replaced in place. With no entry the
  body of the \<open>if\<close> is skipped.
\<close>

definition setActions :: "PolicyCore \<Rightarrow> string \<Rightarrow> string list \<Rightarrow> PolicyCore" where
  "setActions s resourceId actions =
     (case Map_get (selections s) resourceId of
        Some selection \<Rightarrow>
          s\<lparr>selections := Map_set resourceId (selection\<lparr>sel_actions := new_Set actions\<rparr>) (selections s)\<rparr>
      | None \<Rightarrow> s)"

definition setARN :: "PolicyCore \<Rightarrow> string \<Rightarrow> string \<Rightarrow> PolicyCore" where
  "setARN s resourceId arn =
     (case Map_get (selections s) resourceId of
        Some selection \<Rightarrow>
          s\<lparr>selections := Map_set resourceId (selection\<lparr>sel_arn := Some arn\<rparr>) (selections s)\<rparr>
      | None \<Rightarrow> s)"

definition setARNList :: "PolicyCore \<Rightarrow> ARNItem list \<Rightarrow> PolicyCore" where
  "setARNList s arns = s\<lparr>arnList := arns\<rparr>"

definition setDependencyResolver ::
  "PolicyCore \<Rightarrow> (string list \<Rightarrow> string list) \<Rightarrow> PolicyCore" where
  "setDependencyResolver s resolver = s\<lparr>dependencyResolver := Some resolver\<rparr>"

section \<open>Facts about the containers\<close>

lemma set_Set_add: "set (Set_add x s) = insert x (set s)"
  by (auto simp: Set_add_def)

lemma distinct_Set_add: "distinct s \<Longrightarrow> distinct (Set_add x s)"
  by (simp add: Set_add_def)

lemma set_fold_Set_add: "set (fold Set_add xs s) = set xs \<union> set s"
  by (induction xs arbitrary: s) (auto simp: set_Set_add)

lemma distinct_fold_Set_add: "distinct s \<Longrightarrow> distinct (fold Set_add xs s)"
  by (induction xs arbitrary: s) (simp_all add: distinct_Set_add)

lemma set_new_Set: "set (new_Set xs) = set xs"
  by (simp add: new_Set_def set_fold_Set_add)

lemma distinct_new_Set: "distinct (new_Set xs)"
  by (simp add: new_Set_def distinct_fold_Set_add)

lemma Map_get_None_iff: "Map_get m k = None \<longleftrightarrow> k \<notin> set (Map_keys m)"
  by (simp add: Map_get_def Map_keys_def map_of_eq_None_iff)

lemma Map_delete_absent: "k \<notin> set (Map_keys m) \<Longrightarrow> Map_delete k m = m"
  by (induction m) (auto simp: Map_delete_def Map_keys_def)

lemma Map_keys_Map_set:
  "set (Map_keys (Map_set k v m)) = insert k (set (Map_keys m))"
  by (induction m) (auto simp: Map_keys_def)

lemma Map_keys_Map_delete: "set (Map_keys (Map_delete k m)) = set (Map_keys m) - {k}"
  by (auto simp: Map_keys_def Map_delete_def)

section \<open>Operations on an unknown resource id\<close>

text \<open>
  Every mutator keeps the catalogue and the selections on the same key set, so in a state
  the engine can reach an id without a selection has no catalogue entry either.
\<close>

definition same_keys :: "PolicyCore \<Rightarrow> bool" where
  "same_keys s = (set (Map_keys (resources s)) = set (Map_keys (selections s)))"

lemma same_keys_new: "same_keys new_PolicyCore"
  by (simp add: same_keys_def new_PolicyCore_def reset_def Map_keys_def)

lemma same_keys_reset: "same_keys (reset s)"
  by (simp add: same_keys_def reset_def Map_keys_def)

lemma same_keys_addResource: "same_keys s \<Longrightarrow> same_keys (addResource s r)"
  by (auto simp: same_keys_def addResource_def Let_def Map_keys_Map_set Map_has_def
      Map_get_None_iff)

lemma same_keys_removeResource: "same_keys s \<Longrightarrow> same_keys (removeResource s rid)"
  by (simp add: same_keys_def removeResource_def Map_keys_Map_delete)

lemma Map_get_Some_key: "Map_get m k = Some v \<Longrightarrow> k \<in> set (Map_keys m)"
  by (auto simp: Map_get_def Map_keys_def dest: map_of_SomeD intro: rev_image_eqI)

lemma same_keys_setActions: "same_keys s \<Longrightarrow> same_keys (setActions s rid acts)"
  by (auto simp: same_keys_def setActions_def Map_keys_Map_set dest: Map_get_Some_key
      split: option.splits)

lemma same_keys_setARN: "same_keys s \<Longrightarrow> same_keys (setARN s rid a)"
  by (auto simp: same_keys_def setARN_def Map_keys_Map_set dest: Map_get_Some_key
      split: option.splits)

text \<open>
  C9. For a resource id with no selection, \<open>setActions\<close> and \<open>setARN\<close> return the engine
  state they were given (catalogue, selections, identifier catalogue and resolver all
  unchanged), and \<open>removeResource\<close> on an id that is in neither map does the same; in a
  state with the catalogue and the selections on the same keys, the absence of the
  selection is enough for \<open>removeResource\<close> too. The model has no failing branch because
  the source has none: \<open>Map.get\<close> and \<open>Map.delete\<close> on an absent key do not throw.
\<close>

theorem unknown_resource_id_is_noop:
  assumes "rid \<notin> set (Map_keys (selections s))"
  shows "setActions s rid acts = s \<and> setARN s rid a = s \<and>
         (rid \<notin> set (Map_keys (resources s)) \<longrightarrow> removeResource s rid = s) \<and>
         (same_keys s \<longrightarrow> removeResource s rid = s)"
proof -
  from assms have none: "Map_get (selections s) rid = None"
    by (simp add: Map_get_None_iff)
  have a: "setActions s rid acts = s"
    by (simp add: setActions_def none)
  have b: "setARN s rid a = s"
    by (simp add: setARN_def none)
  from assms have sel: "Map_delete rid (selections s) = selections s"
    by (simp add: Map_delete_absent)
  have c: "removeResource s rid = s" if "rid \<notin> set (Map_keys (resources s))"
    using that sel by (simp add: removeResource_def Map_delete_absent)
  have d: "removeResource s rid = s" if "same_keys s"
    using that assms c by (simp add: same_keys_def)
  from a b c d show ?thesis by blast
qed

text \<open>An engine holding one resource, asked about the id \<open>ghost\<close>.\<close>

definition sample_resource :: AWSResource where
  "sample_resource =
     \<lparr>res_id = ''s3-test'', res_name = ''S3 Test Resource'', res_service = ''s3'',
      res_icon = None, res_description = None, res_arnPattern = None,
      res_actions =
        [\<lparr>action_id = ''s3:GetObject'', action_name = ''GetObject'',
          action_description = None, action_category = Read,
          action_dependencies = Some [''s3:ListBucket''], requiresARN = Some True\<rparr>]\<rparr>"

theorem unknown_resource_id_is_noop_witness:
  "''ghost'' \<notin> set (Map_keys (selections (addResource new_PolicyCore sample_resource))) \<and>
   ''ghost'' \<notin> set (Map_keys (resources (addResource new_PolicyCore sample_resource))) \<and>
   same_keys (addResource new_PolicyCore sample_resource) \<and>
   setActions (addResource new_PolicyCore sample_resource) ''ghost'' [''s3:GetObject'']
     = addResource new_PolicyCore sample_resource \<and>
   setARN (addResource new_PolicyCore sample_resource) ''ghost'' ''arn:aws:s3:::b''
     = addResource new_PolicyCore sample_resource \<and>
   removeResource (addResource new_PolicyCore sample_resource) ''ghost''
     = addResource new_PolicyCore sample_resource"
proof -
  have h: "''ghost'' \<notin> set (Map_keys (selections (addResource new_PolicyCore sample_resource)))"
    by (simp add: addResource_def new_PolicyCore_def reset_def sample_resource_def Let_def
        Map_has_def Map_get_def Map_keys_def)
  have k: "same_keys (addResource new_PolicyCore sample_resource)"
    by (rule same_keys_addResource [OF same_keys_new])
  from h k have r: "''ghost'' \<notin> set (Map_keys (resources (addResource new_PolicyCore sample_resource)))"
    by (simp add: same_keys_def)
  from unknown_resource_id_is_noop [OF h, of "[''s3:GetObject'']" "''arn:aws:s3:::b''"] h k r
  show ?thesis by blast
qed

section \<open>The dependency resolver (utils/dependencies.ts)\<close>

text \<open>
  One entry of a dependency table and the table of a service (\<open>DependencyConfig\<close>). The
  table is a JavaScript object keyed by action id: an association list read with
  \<^const>\<open>map_of\<close>, hence finite.
\<close>

record dep_entry =
  dep_actions :: "string list option"
  dep_dependencies :: "string list option"
  dep_requires :: "string list option"
  dep_soft_requires :: "string list option"
  dep_description :: "string option"

record DependencyConfig =
  cfg_service :: string
  cfg_dependencies :: "(string \<times> dep_entry) list"

text \<open>Optional chaining, \<open>deps?.field\<close>.\<close>

definition opt_field :: "'e option \<Rightarrow> ('e \<Rightarrow> 'f option) \<Rightarrow> 'f option" where
  "opt_field deps f = (case deps of None \<Rightarrow> None | Some e \<Rightarrow> f e)"

text \<open>
  The array \<open>toProcess\<close> is used as a stack: \<open>pop\<close> and \<open>push\<close> work at its end. The
  model keeps it reversed, top first. \<open>push_unprocessed\<close> is the body of the two
  \<open>forEach\<close> loops: push each id that \<open>processed\<close> does not hold.
\<close>

definition push_unprocessed :: "string list \<Rightarrow> string list \<Rightarrow> string list \<Rightarrow> string list" where
  "push_unprocessed processed deps toProcess =
     fold (\<lambda>dep st. if dep \<in> set processed then st else dep # st) deps toProcess"

text \<open>Every id that some entry of the table can push: the bound of the loop.\<close>

definition targets :: "(string \<times> dep_entry) list \<Rightarrow> string set" where
  "targets tbl = (\<Union>(k, e) \<in> set tbl.
      (case dep_dependencies e of None \<Rightarrow> {} | Some ds \<Rightarrow> set ds) \<union>
      (case dep_requires e of None \<Rightarrow> {} | Some rs \<Rightarrow> set rs))"

text \<open>
  The \<open>while (toProcess.length > 0)\<close> loop of \<open>resolveDependencies\<close>, with the sets
  \<open>processed\<close> and \<open>resolved\<close> as state. An array is truthy even when empty, so
  \<open>if (deps?.actions)\<close> asks whether the field is present.
\<close>

function resolve_loop ::
  "(string \<times> dep_entry) list \<Rightarrow> string list \<Rightarrow> string list \<Rightarrow> string list \<Rightarrow> string list" where
  "resolve_loop tbl [] processed resolved = resolved"
| "resolve_loop tbl (action # toProcess) processed resolved =
     (if action \<in> set processed then resolve_loop tbl toProcess processed resolved
      else
        let processed1 = Set_add action processed;
            deps = map_of tbl action;
            resolved1 = (case opt_field deps dep_actions of
                           Some as \<Rightarrow> fold Set_add as resolved
                         | None \<Rightarrow> Set_add action resolved);
            toProcess1 = (case opt_field deps dep_dependencies of
                            Some ds \<Rightarrow> push_unprocessed processed1 ds toProcess
                          | None \<Rightarrow> toProcess);
            resolved2 = (case opt_field deps dep_requires of
                           Some rs \<Rightarrow> fold Set_add rs resolved1
                         | None \<Rightarrow> resolved1);
            toProcess2 = (case opt_field deps dep_requires of
                            Some rs \<Rightarrow> push_unprocessed processed1 rs toProcess1
                          | None \<Rightarrow> toProcess1)
        in resolve_loop tbl toProcess2 processed1 resolved2)"
  by pat_completeness auto

lemma set_push_unprocessed:
  "set (push_unprocessed processed deps st) = (set deps - set processed) \<union> set st"
  unfolding push_unprocessed_def
  by (induction deps arbitrary: st) auto

lemma finite_targets: "finite (targets tbl)"
  by (auto simp: targets_def split: option.splits)

lemma targets_dependencies:
  "map_of tbl a = Some e \<Longrightarrow> dep_dependencies e = Some ds \<Longrightarrow> set ds \<subseteq> targets tbl"
  by (force simp: targets_def dest: map_of_SomeD)

lemma targets_requires:
  "map_of tbl a = Some e \<Longrightarrow> dep_requires e = Some rs \<Longrightarrow> set rs \<subseteq> targets tbl"
  by (force simp: targets_def dest: map_of_SomeD)

text \<open>
  The loop terminates on every input: an iteration that skips a processed id shortens the
  stack, and any other iteration moves one id of the finite set (targets and stack) into
  \<open>processed\<close>. \<open>resolve_loop_dom\<close> is the set of inputs on which the recursion is
  well-founded.
\<close>

lemma resolve_loop_terminates: "All resolve_loop_dom"
proof (relation "inv_image (less_than <*lex*> less_than)
    (\<lambda>(tbl, st, pr, rs). (card ((targets tbl \<union> set st) - set pr), length st))", goal_cases)
  case 1
  show ?case by auto
next
  case (2 tbl action toProcess processed resolved)
  then have "(targets tbl \<union> set (action # toProcess)) - set processed
    = (targets tbl \<union> set toProcess) - set processed" by auto
  then show ?case by simp
next
  case (3 tbl action toProcess processed resolved x xa xb xc xd xe)
  have fin: "finite ((targets tbl \<union> set (action # toProcess)) - set processed)"
    by (simp add: finite_targets)
  have "set xe \<subseteq> targets tbl \<union> set toProcess"
    using 3
    by (auto simp: opt_field_def set_push_unprocessed split: option.splits
        dest: targets_dependencies targets_requires)
  then have "(targets tbl \<union> set xe) - set x
    \<subset> (targets tbl \<union> set (action # toProcess)) - set processed"
    using 3 by (auto simp: set_Set_add)
  from psubset_card_mono [OF fin this] show ?case by simp
qed

termination resolve_loop
  by (rule resolve_loop_terminates)

text \<open>
  \<open>resolveDependencies\<close>: a null config returns the array it was given; otherwise the
  loop starts from a copy of the request and two empty sets.
\<close>

definition resolveDependencies :: "string list \<Rightarrow> DependencyConfig option \<Rightarrow> string list" where
  "resolveDependencies actions dependencyConfig =
     (case dependencyConfig of
        None \<Rightarrow> actions
      | Some cfg \<Rightarrow> resolve_loop (cfg_dependencies cfg) (rev actions) [] [])"

subsection \<open>What the loop computes\<close>

text \<open>
  \<open>queued tbl a\<close> are the ids that processing \<open>a\<close> pushes (if not yet processed),
  \<open>emitted tbl a\<close> the ids it adds to the result, and \<open>reach tbl S\<close> the ids reachable
  from \<open>S\<close> along \<open>queued\<close>.
\<close>

definition queued :: "(string \<times> dep_entry) list \<Rightarrow> string \<Rightarrow> string set" where
  "queued tbl a =
     (case opt_field (map_of tbl a) dep_dependencies of None \<Rightarrow> {} | Some ds \<Rightarrow> set ds) \<union>
     (case opt_field (map_of tbl a) dep_requires of None \<Rightarrow> {} | Some rs \<Rightarrow> set rs)"

definition emitted :: "(string \<times> dep_entry) list \<Rightarrow> string \<Rightarrow> string set" where
  "emitted tbl a =
     (case opt_field (map_of tbl a) dep_actions of None \<Rightarrow> {a} | Some as \<Rightarrow> set as) \<union>
     (case opt_field (map_of tbl a) dep_requires of None \<Rightarrow> {} | Some rs \<Rightarrow> set rs)"

definition reach :: "(string \<times> dep_entry) list \<Rightarrow> string set \<Rightarrow> string set" where
  "reach tbl S = {b. \<exists>a\<in>S. (a, b) \<in> {(x, y). y \<in> queued tbl x}\<^sup>*}"

lemma reach_seed: "S \<subseteq> reach tbl S"
  by (auto simp: reach_def)

lemma reach_step: "a \<in> reach tbl S \<Longrightarrow> b \<in> queued tbl a \<Longrightarrow> b \<in> reach tbl S"
  unfolding reach_def by (auto intro: rtrancl_into_rtrancl)

lemma reach_least:
  assumes "S \<subseteq> P" and "\<And>a b. a \<in> P \<Longrightarrow> b \<in> queued tbl a \<Longrightarrow> b \<in> P"
  shows "reach tbl S \<subseteq> P"
proof
  fix b assume "b \<in> reach tbl S"
  then obtain a where a: "a \<in> S" and r: "(a, b) \<in> {(x, y). y \<in> queued tbl x}\<^sup>*"
    by (auto simp: reach_def)
  from r a show "b \<in> P"
    by (induction rule: rtrancl_induct) (use assms in auto)
qed

lemma reach_idem: "reach tbl (reach tbl S) = reach tbl S"
proof
  show "reach tbl (reach tbl S) \<subseteq> reach tbl S"
    by (rule reach_least) (auto intro: reach_step)
  show "reach tbl S \<subseteq> reach tbl (reach tbl S)"
    by (rule reach_seed)
qed

lemma resolve_step_sets:
  assumes "action \<notin> set processed"
  shows "set (case opt_field (map_of tbl action) dep_requires of
                None \<Rightarrow> (case opt_field (map_of tbl action) dep_dependencies of
                            None \<Rightarrow> toProcess
                          | Some ds \<Rightarrow> push_unprocessed (Set_add action processed) ds toProcess)
              | Some rs \<Rightarrow> push_unprocessed (Set_add action processed) rs
                  (case opt_field (map_of tbl action) dep_dependencies of
                            None \<Rightarrow> toProcess
                          | Some ds \<Rightarrow> push_unprocessed (Set_add action processed) ds toProcess))
         = (queued tbl action - insert action (set processed)) \<union> set toProcess"
    and "set (case opt_field (map_of tbl action) dep_requires of
                None \<Rightarrow> (case opt_field (map_of tbl action) dep_actions of
                           None \<Rightarrow> Set_add action resolved
                         | Some as \<Rightarrow> fold Set_add as resolved)
              | Some rs \<Rightarrow> fold Set_add rs
                  (case opt_field (map_of tbl action) dep_actions of
                           None \<Rightarrow> Set_add action resolved
                         | Some as \<Rightarrow> fold Set_add as resolved))
         = emitted tbl action \<union> set resolved"
  by (auto simp: queued_def emitted_def set_push_unprocessed set_Set_add set_fold_Set_add
      split: option.splits)

lemma resolve_loop_closure:
  assumes "set st \<union> set pr \<subseteq> reach tbl S"
    and "\<forall>a\<in>set pr. queued tbl a \<subseteq> set pr \<union> set st"
    and "\<forall>a\<in>set pr. emitted tbl a \<subseteq> set rs"
    and "set rs \<subseteq> (\<Union>a\<in>reach tbl S. emitted tbl a)"
    and "S \<subseteq> set pr \<union> set st"
  shows "set (resolve_loop tbl st pr rs) = (\<Union>a\<in>reach tbl S. emitted tbl a)"
  using assms
proof (induction tbl st pr rs rule: resolve_loop.induct)
  case (1 tbl processed resolved)
  have "reach tbl S \<subseteq> set processed"
    by (rule reach_least) (use 1 in auto)
  with 1 show ?case by auto
next
  case (2 tbl action toProcess processed resolved)
  show ?case
  proof (cases "action \<in> set processed")
    case True
    have "set (resolve_loop tbl toProcess processed resolved) = (\<Union>a\<in>reach tbl S. emitted tbl a)"
      using True 2(3-7) by (intro 2(1)) auto
    with True show ?thesis by simp
  next
    case False
    let ?st = "case opt_field (map_of tbl action) dep_requires of
                None \<Rightarrow> (case opt_field (map_of tbl action) dep_dependencies of
                            None \<Rightarrow> toProcess
                          | Some ds \<Rightarrow> push_unprocessed (Set_add action processed) ds toProcess)
              | Some rs \<Rightarrow> push_unprocessed (Set_add action processed) rs
                  (case opt_field (map_of tbl action) dep_dependencies of
                            None \<Rightarrow> toProcess
                          | Some ds \<Rightarrow> push_unprocessed (Set_add action processed) ds toProcess)"
    let ?rs = "case opt_field (map_of tbl action) dep_requires of
                None \<Rightarrow> (case opt_field (map_of tbl action) dep_actions of
                           None \<Rightarrow> Set_add action resolved
                         | Some as \<Rightarrow> fold Set_add as resolved)
              | Some rs \<Rightarrow> fold Set_add rs
                  (case opt_field (map_of tbl action) dep_actions of
                           None \<Rightarrow> Set_add action resolved
                         | Some as \<Rightarrow> fold Set_add as resolved)"
    have st: "set ?st = (queued tbl action - insert action (set processed)) \<union> set toProcess"
      and rs: "set ?rs = emitted tbl action \<union> set resolved"
      using resolve_step_sets [OF False] by blast+
    have act: "action \<in> reach tbl S" using 2(3) by auto
    have q: "queued tbl action \<subseteq> reach tbl S"
      using act by (auto intro: reach_step)
    have "set (resolve_loop tbl ?st (Set_add action processed) ?rs)
        = (\<Union>a\<in>reach tbl S. emitted tbl a)"
    proof (rule 2(2) [OF False refl refl refl refl refl refl], goal_cases)
      case 1
      show ?case using 2(3) q by (auto simp: st set_Set_add)
    next
      case 2
      show ?case using "2.prems"(2) by (auto simp: st set_Set_add)
    next
      case 3
      show ?case using "2.prems"(3) by (auto simp: rs set_Set_add)
    next
      case 4
      show ?case using "2.prems"(4) act by (auto simp: rs)
    next
      case 5
      show ?case using "2.prems"(5) by (auto simp: st set_Set_add)
    qed
    with False show ?thesis by (simp add: Let_def)
  qed
qed

lemma distinct_resolve_loop: "distinct rs \<Longrightarrow> distinct (resolve_loop tbl st pr rs)"
proof (induction tbl st pr rs rule: resolve_loop.induct)
  case 1
  then show ?case by simp
next
  case (2 tbl action toProcess processed resolved)
  then show ?case
    by (auto simp: Let_def distinct_Set_add distinct_fold_Set_add split: option.splits)
qed

lemma set_resolveDependencies:
  "set (resolveDependencies acts (Some cfg))
     = (\<Union>a\<in>reach (cfg_dependencies cfg) (set acts). emitted (cfg_dependencies cfg) a)"
  unfolding resolveDependencies_def option.case
  by (rule resolve_loop_closure) (auto simp: reach_seed [THEN subsetD])


text \<open>The method \<open>PolicyCore.resolveDependencies\<close>.\<close>

definition PolicyCore_resolveDependencies :: "PolicyCore \<Rightarrow> string list \<Rightarrow> string list" where
  "PolicyCore_resolveDependencies s actions =
     (case dependencyResolver s of
        Some resolver \<Rightarrow> resolver actions
      | None \<Rightarrow>
          fold (\<lambda>action resolved.
                  case Map_get (dependencies s) action of
                    Some deps \<Rightarrow> fold Set_add deps resolved
                  | None \<Rightarrow> resolved)
            actions (new_Set actions))"

text \<open>The built-in table of the service \<open>s3\<close> (\<open>staticDependencies.s3\<close>).\<close>

definition dep_only :: "string list \<Rightarrow> string list \<Rightarrow> dep_entry" where
  "dep_only as ds =
     \<lparr>dep_actions = Some as, dep_dependencies = Some ds, dep_requires = None,
      dep_soft_requires = None, dep_description = None\<rparr>"

definition staticDependencies_s3 :: DependencyConfig where
  "staticDependencies_s3 =
     \<lparr>cfg_service = ''s3'',
      cfg_dependencies =
        [(''s3:ListBucket'', dep_only [''s3:ListBucket''] []),
         (''s3:GetBucketLocation'', dep_only [''s3:GetBucketLocation''] []),
         (''s3:GetObject'', dep_only [''s3:GetObject''] [''s3:ListBucket'', ''s3:GetBucketLocation'']),
         (''s3:PutObject'', dep_only [''s3:PutObject''] [''s3:ListBucket'']),
         (''s3:DeleteObject'', dep_only [''s3:DeleteObject''] [''s3:ListBucket''])]\<rparr>"

lemma fold_no_table:
  "list_all (\<lambda>a. Map_get m a = None) acts \<Longrightarrow>
   fold (\<lambda>action resolved.
           case Map_get m action of Some deps \<Rightarrow> fold Set_add deps resolved | None \<Rightarrow> resolved)
     acts r = r"
  by (induction acts arbitrary: r) auto

subsection \<open>Resolution with no table\<close>

text \<open>
  C3 (as amended). With a null config \<open>resolveDependencies\<close> returns the list it was
  given, duplicates included. The engine with no registered resolver and no entry of its
  own table for any requested action returns the request with duplicates removed (first
  occurrences, in order): the same set, duplicate-free.
\<close>

theorem resolve_without_table:
  "resolveDependencies acts None = acts \<and>
   (dependencyResolver s = None \<and> list_all (\<lambda>a. Map_get (dependencies s) a = None) acts \<longrightarrow>
      PolicyCore_resolveDependencies s acts = new_Set acts \<and>
      set (PolicyCore_resolveDependencies s acts) = set acts \<and>
      distinct (PolicyCore_resolveDependencies s acts))"
  by (simp add: resolveDependencies_def PolicyCore_resolveDependencies_def fold_no_table
      set_new_Set distinct_new_Set)

text \<open>A fresh engine and a request that names one action twice.\<close>

theorem resolve_without_table_witness:
  "dependencyResolver new_PolicyCore = None \<and>
   list_all (\<lambda>a. Map_get (dependencies new_PolicyCore) a = None)
     [''s3:GetObject'', ''s3:PutObject'', ''s3:GetObject''] \<and>
   PolicyCore_resolveDependencies new_PolicyCore [''s3:GetObject'', ''s3:PutObject'', ''s3:GetObject'']
     = [''s3:GetObject'', ''s3:PutObject''] \<and>
   resolveDependencies [''s3:GetObject'', ''s3:PutObject'', ''s3:GetObject''] None
     = [''s3:GetObject'', ''s3:PutObject'', ''s3:GetObject'']"
proof -
  have h: "dependencyResolver new_PolicyCore = None \<and>
    list_all (\<lambda>a. Map_get (dependencies new_PolicyCore) a = None)
     [''s3:GetObject'', ''s3:PutObject'', ''s3:GetObject'']"
    by (simp add: new_PolicyCore_def reset_def Map_get_def)
  have v: "new_Set [''s3:GetObject'', ''s3:PutObject'', ''s3:GetObject'']
     = [''s3:GetObject'', ''s3:PutObject'']"
    by (simp add: new_Set_def Set_add_def)
  from resolve_without_table [of "[''s3:GetObject'', ''s3:PutObject'', ''s3:GetObject'']" new_PolicyCore]
    h v show ?thesis by simp
qed

text \<open>With a null config a duplicate in the request stays in the result.\<close>

theorem null_config_keeps_duplicates:
  "\<not> distinct (resolveDependencies [''s3:GetObject'', ''s3:GetObject''] None)"
  by (simp add: resolveDependencies_def)

subsection \<open>Idempotence\<close>

text \<open>
  An entry is self-described when it declares no \<open>actions\<close> or its \<open>actions\<close> are its own
  id, as in every built-in table.
\<close>

definition self_described :: "string \<times> dep_entry \<Rightarrow> bool" where
  "self_described ke = (case dep_actions (snd ke) of None \<Rightarrow> True | Some as \<Rightarrow> set as = {fst ke})"

lemma emitted_self_described:
  assumes "list_all self_described tbl"
  shows "a \<in> emitted tbl a" and "emitted tbl a \<subseteq> insert a (queued tbl a)"
proof -
  have *: "set as = {a}" if "map_of tbl a = Some e" "dep_actions e = Some as" for e as
  proof -
    from that(1) have "(a, e) \<in> set tbl" by (rule map_of_SomeD)
    with assms have "self_described (a, e)" by (auto simp: list_all_iff)
    with that(2) show ?thesis by (simp add: self_described_def)
  qed
  show "a \<in> emitted tbl a"
    using * by (auto simp: emitted_def opt_field_def split: option.splits)
  show "emitted tbl a \<subseteq> insert a (queued tbl a)"
    using * by (auto simp: emitted_def queued_def opt_field_def split: option.splits)
qed

lemma emitted_reach_self_described:
  assumes "list_all self_described tbl"
  shows "(\<Union>a\<in>reach tbl S. emitted tbl a) = reach tbl S"
proof
  show "(\<Union>a\<in>reach tbl S. emitted tbl a) \<subseteq> reach tbl S"
    using emitted_self_described(2) [OF assms] by (blast intro: reach_step)
  show "reach tbl S \<subseteq> (\<Union>a\<in>reach tbl S. emitted tbl a)"
    using emitted_self_described(1) [OF assms] by blast
qed

text \<open>
  C4 (as amended). With a null config, or a table whose entries are all self-described,
  resolving the result of a resolution gives the same set again.
\<close>

theorem resolveDependencies_idempotent:
  assumes "case dependencyConfig of None \<Rightarrow> True
           | Some cfg \<Rightarrow> list_all self_described (cfg_dependencies cfg)"
  shows "set (resolveDependencies (resolveDependencies acts dependencyConfig) dependencyConfig)
       = set (resolveDependencies acts dependencyConfig)"
proof (cases dependencyConfig)
  case None
  then show ?thesis by (simp add: resolveDependencies_def)
next
  case (Some cfg)
  with assms have sd: "list_all self_described (cfg_dependencies cfg)" by simp
  have r: "set (resolveDependencies xs (Some cfg)) = reach (cfg_dependencies cfg) (set xs)" for xs
    by (simp add: set_resolveDependencies emitted_reach_self_described [OF sd])
  show ?thesis unfolding Some r by (rule reach_idem)
qed


text \<open>The built-in \<open>s3\<close> table and the request \<open>s3:GetObject\<close>.\<close>

lemma resolve_s3_GetObject:
  "resolveDependencies [''s3:GetObject''] (Some staticDependencies_s3)
     = [''s3:GetObject'', ''s3:GetBucketLocation'', ''s3:ListBucket'']"
  by (simp add: resolveDependencies_def staticDependencies_s3_def dep_only_def opt_field_def
      push_unprocessed_def Set_add_def Let_def)

theorem resolveDependencies_idempotent_witness:
  "list_all self_described (cfg_dependencies staticDependencies_s3) \<and>
   set (resolveDependencies (resolveDependencies [''s3:GetObject''] (Some staticDependencies_s3))
          (Some staticDependencies_s3))
     = set (resolveDependencies [''s3:GetObject''] (Some staticDependencies_s3))"
proof -
  have h: "list_all self_described (cfg_dependencies staticDependencies_s3)"
    by (simp add: staticDependencies_s3_def dep_only_def self_described_def)
  from resolveDependencies_idempotent [of "Some staticDependencies_s3" "[''s3:GetObject'']"] h
  show ?thesis by simp
qed

text \<open>
  A table in which one id stands for another action: \<open>s3:ReadAccess\<close> declares the
  \<open>actions\<close> \<open>[s3:GetObject]\<close>, and \<open>s3:GetObject\<close> has a dependency of its own. The first
  resolution yields \<open>s3:GetObject\<close> alone; resolving that adds \<open>s3:ListBucket\<close>.
\<close>

definition alias_table :: DependencyConfig where
  "alias_table =
     \<lparr>cfg_service = ''s3'',
      cfg_dependencies =
        [(''s3:ReadAccess'', \<lparr>dep_actions = Some [''s3:GetObject''], dep_dependencies = None,
            dep_requires = None, dep_soft_requires = None, dep_description = None\<rparr>),
         (''s3:GetObject'', dep_only [''s3:GetObject''] [''s3:ListBucket''])]\<rparr>"

theorem resolveDependencies_not_idempotent:
  "resolveDependencies [''s3:ReadAccess''] (Some alias_table) = [''s3:GetObject''] \<and>
   resolveDependencies (resolveDependencies [''s3:ReadAccess''] (Some alias_table)) (Some alias_table)
     = [''s3:GetObject'', ''s3:ListBucket''] \<and>
   set (resolveDependencies (resolveDependencies [''s3:ReadAccess''] (Some alias_table))
          (Some alias_table))
     \<noteq> set (resolveDependencies [''s3:ReadAccess''] (Some alias_table))"
proof -
  have a: "resolveDependencies [''s3:ReadAccess''] (Some alias_table) = [''s3:GetObject'']"
    by (simp add: resolveDependencies_def alias_table_def dep_only_def opt_field_def
      push_unprocessed_def Set_add_def Let_def)
  have b: "resolveDependencies [''s3:GetObject''] (Some alias_table)
     = [''s3:GetObject'', ''s3:ListBucket'']"
    by (simp add: resolveDependencies_def alias_table_def dep_only_def opt_field_def
      push_unprocessed_def Set_add_def Let_def)
  show ?thesis unfolding a b by simp
qed

subsection \<open>Cycles\<close>

text \<open>Every id an entry of the table names in \<open>actions\<close>, \<open>dependencies\<close> or \<open>requires\<close>.\<close>

definition mentioned :: "(string \<times> dep_entry) list \<Rightarrow> string set" where
  "mentioned tbl = targets tbl \<union>
     (\<Union>ke \<in> set tbl. case dep_actions (snd ke) of None \<Rightarrow> {} | Some as \<Rightarrow> set as)"

lemma queued_targets: "queued tbl a \<subseteq> targets tbl"
  by (auto simp: queued_def opt_field_def split: option.splits
      dest: targets_dependencies targets_requires)

lemma reach_bound: "reach tbl S \<subseteq> S \<union> targets tbl"
  by (rule reach_least) (use queued_targets in auto)

lemma emitted_bound: "emitted tbl a \<subseteq> insert a (mentioned tbl)"
proof (cases "map_of tbl a")
  case None
  then show ?thesis by (simp add: emitted_def opt_field_def)
next
  case (Some e)
  have "set as \<subseteq> mentioned tbl" if "dep_actions e = Some as" for as
    using map_of_SomeD [OF Some] that by (force simp: mentioned_def)
  then have a: "(case dep_actions e of None \<Rightarrow> {a} | Some as \<Rightarrow> set as) \<subseteq> insert a (mentioned tbl)"
    by (cases "dep_actions e") auto
  have "set rs \<subseteq> mentioned tbl" if "dep_requires e = Some rs" for rs
    using targets_requires [OF Some that] by (auto simp: mentioned_def)
  then have b: "(case dep_requires e of None \<Rightarrow> {} | Some rs \<Rightarrow> set rs) \<subseteq> mentioned tbl"
    by (cases "dep_requires e") auto
  from a b show ?thesis
    by (auto simp: emitted_def opt_field_def Some)
qed

text \<open>
  \<open>required tbl a\<close> are the ids the entry of \<open>a\<close> lists under \<open>requires\<close>; \<open>keeps_id tbl a\<close>
  says that the entry of \<open>a\<close> does not replace \<open>a\<close> by an \<open>actions\<close> list that omits it.
\<close>

definition required :: "(string \<times> dep_entry) list \<Rightarrow> string \<Rightarrow> string set" where
  "required tbl a =
     (case opt_field (map_of tbl a) dep_requires of None \<Rightarrow> {} | Some rs \<Rightarrow> set rs)"

definition keeps_id :: "(string \<times> dep_entry) list \<Rightarrow> string \<Rightarrow> bool" where
  "keeps_id tbl a =
     (case opt_field (map_of tbl a) dep_actions of None \<Rightarrow> True | Some as \<Rightarrow> a \<in> set as)"

lemma required_queued: "required tbl a \<subseteq> queued tbl a"
  by (auto simp: required_def queued_def)

lemma required_emitted: "required tbl a \<subseteq> emitted tbl a"
  by (auto simp: required_def emitted_def)

lemma keeps_id_emitted: "keeps_id tbl a \<Longrightarrow> a \<in> emitted tbl a"
  by (auto simp: keeps_id_def emitted_def split: option.splits)

lemma emitted_pair_resolved:
  assumes "a \<in> set acts" and "b \<in> queued (cfg_dependencies cfg) a"
  shows "emitted (cfg_dependencies cfg) a \<union> emitted (cfg_dependencies cfg) b
           \<subseteq> set (resolveDependencies acts (Some cfg))"
proof -
  from assms(1) have ra: "a \<in> reach (cfg_dependencies cfg) (set acts)"
    using reach_seed by blast
  with assms(2) have rb: "b \<in> reach (cfg_dependencies cfg) (set acts)"
    by (blast intro: reach_step)
  from ra rb show ?thesis
    unfolding set_resolveDependencies by blast
qed

text \<open>
  C5 (as amended). On every table, cyclic or not, the loop of \<open>resolveDependencies\<close>
  terminates on the request, and the result is a duplicate-free list of ids taken from
  the request and the table. When a requested id \<open>a\<close> pushes an id \<open>b\<close> (through
  \<open>dependencies\<close> or \<open>requires\<close>), the result holds everything the two entries emit.
  So for a cycle between \<open>a\<close> and \<open>b\<close> the result holds \<open>a\<close> and \<open>b\<close> themselves when the
  cycle runs through \<open>requires\<close>, when neither entry replaces its id by an \<open>actions\<close>
  list that omits it, and in general whenever each of the two is emitted by one of the
  two entries.
\<close>

theorem resolveDependencies_cycle:
  "resolve_loop_dom (cfg_dependencies cfg, rev acts, [], []) \<and>
   distinct (resolveDependencies acts (Some cfg)) \<and>
   set (resolveDependencies acts (Some cfg)) \<subseteq> set acts \<union> mentioned (cfg_dependencies cfg) \<and>
   (a \<in> set acts \<and> b \<in> queued (cfg_dependencies cfg) a
    \<longrightarrow> emitted (cfg_dependencies cfg) a \<union> emitted (cfg_dependencies cfg) b
          \<subseteq> set (resolveDependencies acts (Some cfg))) \<and>
   (a \<in> set acts \<and> b \<in> required (cfg_dependencies cfg) a \<and>
    a \<in> required (cfg_dependencies cfg) b
    \<longrightarrow> a \<in> set (resolveDependencies acts (Some cfg)) \<and>
        b \<in> set (resolveDependencies acts (Some cfg))) \<and>
   (a \<in> set acts \<and> b \<in> queued (cfg_dependencies cfg) a \<and> a \<in> queued (cfg_dependencies cfg) b \<and>
    keeps_id (cfg_dependencies cfg) a \<and> keeps_id (cfg_dependencies cfg) b
    \<longrightarrow> a \<in> set (resolveDependencies acts (Some cfg)) \<and>
        b \<in> set (resolveDependencies acts (Some cfg))) \<and>
   (a \<in> set acts \<and> b \<in> queued (cfg_dependencies cfg) a \<and> a \<in> queued (cfg_dependencies cfg) b \<and>
    a \<in> emitted (cfg_dependencies cfg) a \<union> emitted (cfg_dependencies cfg) b \<and>
    b \<in> emitted (cfg_dependencies cfg) a \<union> emitted (cfg_dependencies cfg) b
    \<longrightarrow> a \<in> set (resolveDependencies acts (Some cfg)) \<and>
        b \<in> set (resolveDependencies acts (Some cfg)))"
proof -
  have t: "resolve_loop_dom (cfg_dependencies cfg, rev acts, [], [])"
    using resolve_loop_terminates by blast
  have d: "distinct (resolveDependencies acts (Some cfg))"
    by (simp add: resolveDependencies_def distinct_resolve_loop)
  have m: "set (resolveDependencies acts (Some cfg)) \<subseteq> set acts \<union> mentioned (cfg_dependencies cfg)"
  proof -
    have "emitted (cfg_dependencies cfg) x \<subseteq> set acts \<union> mentioned (cfg_dependencies cfg)"
      if "x \<in> reach (cfg_dependencies cfg) (set acts)" for x
      using that reach_bound [of "cfg_dependencies cfg" "set acts"]
        emitted_bound [of "cfg_dependencies cfg" x]
      by (auto simp: mentioned_def)
    then show ?thesis unfolding set_resolveDependencies by blast
  qed
  have e: "emitted (cfg_dependencies cfg) a \<union> emitted (cfg_dependencies cfg) b
          \<subseteq> set (resolveDependencies acts (Some cfg))"
    if "a \<in> set acts \<and> b \<in> queued (cfg_dependencies cfg) a"
    using that emitted_pair_resolved by blast
  have r: "a \<in> set (resolveDependencies acts (Some cfg)) \<and>
        b \<in> set (resolveDependencies acts (Some cfg))"
    if "a \<in> set acts \<and> b \<in> required (cfg_dependencies cfg) a \<and>
        a \<in> required (cfg_dependencies cfg) b"
  proof -
    from that have "a \<in> set acts \<and> b \<in> queued (cfg_dependencies cfg) a"
      using required_queued by blast
    from e [OF this] that show ?thesis
      using required_emitted by blast
  qed
  have k: "a \<in> set (resolveDependencies acts (Some cfg)) \<and>
        b \<in> set (resolveDependencies acts (Some cfg))"
    if "a \<in> set acts \<and> b \<in> queued (cfg_dependencies cfg) a \<and>
        a \<in> queued (cfg_dependencies cfg) b \<and>
        keeps_id (cfg_dependencies cfg) a \<and> keeps_id (cfg_dependencies cfg) b"
  proof -
    from that have "a \<in> set acts \<and> b \<in> queued (cfg_dependencies cfg) a" by blast
    from e [OF this] that show ?thesis
      using keeps_id_emitted by blast
  qed
  have g: "a \<in> set (resolveDependencies acts (Some cfg)) \<and>
        b \<in> set (resolveDependencies acts (Some cfg))"
    if "a \<in> set acts \<and> b \<in> queued (cfg_dependencies cfg) a \<and>
        a \<in> queued (cfg_dependencies cfg) b \<and>
        a \<in> emitted (cfg_dependencies cfg) a \<union> emitted (cfg_dependencies cfg) b \<and>
        b \<in> emitted (cfg_dependencies cfg) a \<union> emitted (cfg_dependencies cfg) b"
  proof -
    from that have "a \<in> set acts \<and> b \<in> queued (cfg_dependencies cfg) a" by blast
    from e [OF this] that show ?thesis by blast
  qed
  from t d m e r k g show ?thesis by blast
qed

text \<open>
  Three tables. In \<open>cycle_table\<close>, the cycle of the specification, \<open>A\<close> requires \<open>B\<close> and \<open>B\<close>
  requires \<open>A\<close>. In \<open>dependencies_cycle_table\<close> the cycle runs through \<open>dependencies\<close> and
  no entry declares \<open>actions\<close>. In \<open>masked_cycle_table\<close> the cycle runs through
  \<open>dependencies\<close> and the entry of \<open>A\<close> declares the \<open>actions\<close> \<open>[X]\<close>: the result of
  requesting \<open>A\<close> holds \<open>X\<close> and \<open>B\<close>, all that the two entries emit, and not \<open>A\<close>.
\<close>

definition requires_only :: "string list \<Rightarrow> dep_entry" where
  "requires_only rs =
     \<lparr>dep_actions = None, dep_dependencies = None, dep_requires = Some rs,
      dep_soft_requires = None, dep_description = None\<rparr>"

definition dependencies_only :: "string list \<Rightarrow> dep_entry" where
  "dependencies_only ds =
     \<lparr>dep_actions = None, dep_dependencies = Some ds, dep_requires = None,
      dep_soft_requires = None, dep_description = None\<rparr>"

definition cycle_table :: DependencyConfig where
  "cycle_table =
     \<lparr>cfg_service = ''x'',
      cfg_dependencies = [(''A'', requires_only [''B'']), (''B'', requires_only [''A''])]\<rparr>"

definition dependencies_cycle_table :: DependencyConfig where
  "dependencies_cycle_table =
     \<lparr>cfg_service = ''x'',
      cfg_dependencies =
        [(''A'', dependencies_only [''B'']), (''B'', dependencies_only [''A''])]\<rparr>"

definition masked_cycle_table :: DependencyConfig where
  "masked_cycle_table =
     \<lparr>cfg_service = ''x'',
      cfg_dependencies =
        [(''A'', dep_only [''X''] [''B'']), (''B'', dependencies_only [''A''])]\<rparr>"

lemmas cycle_eval = cycle_table_def dependencies_cycle_table_def masked_cycle_table_def
  requires_only_def dependencies_only_def dep_only_def queued_def emitted_def required_def
  keeps_id_def opt_field_def

theorem resolveDependencies_cycle_witness:
  "''A'' \<in> set [''A''] \<and>
   ''B'' \<in> required (cfg_dependencies cycle_table) ''A'' \<and>
   ''A'' \<in> required (cfg_dependencies cycle_table) ''B'' \<and>
   ''B'' \<in> queued (cfg_dependencies cycle_table) ''A'' \<and>
   ''A'' \<in> queued (cfg_dependencies cycle_table) ''B'' \<and>
   ''A'' \<in> emitted (cfg_dependencies cycle_table) ''A'' \<union> emitted (cfg_dependencies cycle_table) ''B'' \<and>
   ''B'' \<in> emitted (cfg_dependencies cycle_table) ''A'' \<union> emitted (cfg_dependencies cycle_table) ''B'' \<and>
   resolve_loop_dom (cfg_dependencies cycle_table, rev [''A''], [], []) \<and>
   distinct (resolveDependencies [''A''] (Some cycle_table)) \<and>
   ''A'' \<in> set (resolveDependencies [''A''] (Some cycle_table)) \<and>
   ''B'' \<in> set (resolveDependencies [''A''] (Some cycle_table)) \<and>
   ''B'' \<in> queued (cfg_dependencies dependencies_cycle_table) ''A'' \<and>
   ''A'' \<in> queued (cfg_dependencies dependencies_cycle_table) ''B'' \<and>
   keeps_id (cfg_dependencies dependencies_cycle_table) ''A'' \<and>
   keeps_id (cfg_dependencies dependencies_cycle_table) ''B'' \<and>
   ''A'' \<in> set (resolveDependencies [''A''] (Some dependencies_cycle_table)) \<and>
   ''B'' \<in> set (resolveDependencies [''A''] (Some dependencies_cycle_table)) \<and>
   ''B'' \<in> queued (cfg_dependencies masked_cycle_table) ''A'' \<and>
   emitted (cfg_dependencies masked_cycle_table) ''A'' \<union>
     emitted (cfg_dependencies masked_cycle_table) ''B'' = {''X'', ''B''} \<and>
   {''X'', ''B''} \<subseteq> set (resolveDependencies [''A''] (Some masked_cycle_table))"
proof -
  have h1: "''A'' \<in> set [''A''] \<and>
   ''B'' \<in> required (cfg_dependencies cycle_table) ''A'' \<and>
   ''A'' \<in> required (cfg_dependencies cycle_table) ''B'' \<and>
   ''B'' \<in> queued (cfg_dependencies cycle_table) ''A'' \<and>
   ''A'' \<in> queued (cfg_dependencies cycle_table) ''B'' \<and>
   ''A'' \<in> emitted (cfg_dependencies cycle_table) ''A'' \<union> emitted (cfg_dependencies cycle_table) ''B'' \<and>
   ''B'' \<in> emitted (cfg_dependencies cycle_table) ''A'' \<union> emitted (cfg_dependencies cycle_table) ''B''"
    by (simp add: cycle_eval)
  have h2: "''B'' \<in> queued (cfg_dependencies dependencies_cycle_table) ''A'' \<and>
   ''A'' \<in> queued (cfg_dependencies dependencies_cycle_table) ''B'' \<and>
   keeps_id (cfg_dependencies dependencies_cycle_table) ''A'' \<and>
   keeps_id (cfg_dependencies dependencies_cycle_table) ''B''"
    by (simp add: cycle_eval)
  have h3: "''B'' \<in> queued (cfg_dependencies masked_cycle_table) ''A''"
    by (simp add: cycle_eval)
  have e3: "emitted (cfg_dependencies masked_cycle_table) ''A'' \<union>
     emitted (cfg_dependencies masked_cycle_table) ''B'' = {''X'', ''B''}"
    by (auto simp: cycle_eval)
  have c1: "resolve_loop_dom (cfg_dependencies cycle_table, rev [''A''], [], []) \<and>
   distinct (resolveDependencies [''A''] (Some cycle_table)) \<and>
   ''A'' \<in> set (resolveDependencies [''A''] (Some cycle_table)) \<and>
   ''B'' \<in> set (resolveDependencies [''A''] (Some cycle_table))"
    using resolveDependencies_cycle
      [where acts = "[''A'']" and cfg = cycle_table and a = "''A''" and b = "''B''"] h1
    by blast
  have c2: "''A'' \<in> set (resolveDependencies [''A''] (Some dependencies_cycle_table)) \<and>
   ''B'' \<in> set (resolveDependencies [''A''] (Some dependencies_cycle_table))"
    using resolveDependencies_cycle
      [where acts = "[''A'']" and cfg = dependencies_cycle_table and a = "''A''" and b = "''B''"]
      h1 h2
    by blast
  have "emitted (cfg_dependencies masked_cycle_table) ''A'' \<union>
     emitted (cfg_dependencies masked_cycle_table) ''B''
       \<subseteq> set (resolveDependencies [''A''] (Some masked_cycle_table))"
    using resolveDependencies_cycle
      [where acts = "[''A'']" and cfg = masked_cycle_table and a = "''A''" and b = "''B''"]
      h1 h3
    by blast
  then have c3: "{''X'', ''B''} \<subseteq> set (resolveDependencies [''A''] (Some masked_cycle_table))"
    unfolding e3 .
  from h1 h2 h3 e3 c1 c2 c3 show ?thesis by blast
qed

text \<open>
  In \<open>masked_cycle_table\<close> the ids \<open>A\<close> and \<open>B\<close> push each other through \<open>dependencies\<close>, and
  the result of requesting \<open>A\<close> does not hold \<open>A\<close>.
\<close>

theorem dependencies_cycle_member_missing:
  "''B'' \<in> queued (cfg_dependencies masked_cycle_table) ''A'' \<and>
   ''A'' \<in> queued (cfg_dependencies masked_cycle_table) ''B'' \<and>
   resolveDependencies [''A''] (Some masked_cycle_table) = [''X'', ''B''] \<and>
   ''A'' \<notin> set (resolveDependencies [''A''] (Some masked_cycle_table))"
proof -
  have r: "resolveDependencies [''A''] (Some masked_cycle_table) = [''X'', ''B'']"
    by (simp add: resolveDependencies_def masked_cycle_table_def dep_only_def
        dependencies_only_def opt_field_def push_unprocessed_def Set_add_def Let_def)
  show ?thesis unfolding r
    by (simp add: cycle_eval)
qed

section \<open>Regular expressions\<close>

text \<open>
  The identifier grammar is written with JavaScript regular expressions. This section
  models the fragment they use: a sequence of nodes, each an assertion (\<open>^\<close>, \<open>$\<close>) or
  a character class (a literal character is the class of that character) taken once, or
  under a greedy \<open>*\<close> or \<open>+\<close>. The Boolean of an atom says whether it is a capture group.
  Matching is the backtracking search of the language: the alternatives of a node are
  tried in order of priority, longest first for a greedy quantifier.
\<close>

datatype quantifier = Once | Star | Plus

datatype node =
    Assert_start
  | Assert_end
  | Atom "char \<Rightarrow> bool" quantifier bool

text \<open>
  A literal string, and the classes the patterns use. Without the \<open>s\<close> flag \<open>.\<close> matches
  every character but the line terminators (line feed and carriage return among the
  code units below 256), while a negated class such as \<open>[^:]\<close> matches them too.
\<close>

definition lit :: "string \<Rightarrow> node list" where
  "lit w = map (\<lambda>c. Atom (\<lambda>x. x = c) Once False) w"

definition dot :: "char \<Rightarrow> bool" where
  "dot c = (c \<noteq> CHR 0x0A \<and> c \<noteq> CHR 0x0D)"

definition not_colon :: "char \<Rightarrow> bool" where
  "not_colon c = (c \<noteq> CHR '':'')"

definition lower_digit_hyphen :: "char \<Rightarrow> bool" where
  "lower_digit_hyphen c =
     ((CHR ''a'' \<le> c \<and> c \<le> CHR ''z'') \<or> (CHR ''0'' \<le> c \<and> c \<le> CHR ''9'') \<or> c = CHR ''-'')"

definition digit :: "char \<Rightarrow> bool" where
  "digit c = (CHR ''0'' \<le> c \<and> c \<le> CHR ''9'')"

text \<open>
  \<open>greedy p s\<close> lists the ways \<open>p*\<close> can match at the start of \<open>s\<close>, as pairs of the
  matched text and the rest, longest first. \<open>alternatives\<close> does the same for a node;
  \<open>pos\<close> is the index in the input, which \<open>^\<close> needs.
\<close>

fun greedy :: "(char \<Rightarrow> bool) \<Rightarrow> string \<Rightarrow> (string \<times> string) list" where
  "greedy p [] = [([], [])]"
| "greedy p (c # cs) =
     (if p c then map (\<lambda>ur. (c # fst ur, snd ur)) (greedy p cs) @ [([], c # cs)]
      else [([], c # cs)])"

fun alternatives :: "node \<Rightarrow> nat \<Rightarrow> string \<Rightarrow> (string \<times> string) list" where
  "alternatives Assert_start pos s = (if pos = 0 then [([], s)] else [])"
| "alternatives Assert_end pos s = (if s = [] then [([], s)] else [])"
| "alternatives (Atom p Once cap) pos s =
     (case s of [] \<Rightarrow> [] | c # cs \<Rightarrow> if p c then [([c], cs)] else [])"
| "alternatives (Atom p Star cap) pos s = greedy p s"
| "alternatives (Atom p Plus cap) pos s = filter (\<lambda>ur. fst ur \<noteq> []) (greedy p s)"

fun captured :: "node \<Rightarrow> bool" where
  "captured (Atom p q cap) = cap"
| "captured n = False"

text \<open>
  \<open>match_seq\<close> matches a sequence of nodes at a position and returns the texts of the
  capture groups of the first successful alternative.
\<close>

fun first_some :: "('a \<Rightarrow> 'b option) \<Rightarrow> 'a list \<Rightarrow> 'b option" where
  "first_some f [] = None"
| "first_some f (x # xs) = (case f x of Some y \<Rightarrow> Some y | None \<Rightarrow> first_some f xs)"

fun match_seq :: "node list \<Rightarrow> nat \<Rightarrow> string \<Rightarrow> string list option" where
  "match_seq [] pos s = Some []"
| "match_seq (n # ns) pos s =
     first_some
       (\<lambda>ur. case match_seq ns (pos + length (fst ur)) (snd ur) of
               None \<Rightarrow> None
             | Some caps \<Rightarrow> Some (if captured n then fst ur # caps else caps))
       (alternatives n pos s)"

text \<open>
  \<open>RegExp.prototype.exec\<close> (and \<open>String.prototype.match\<close>, for a pattern without the \<open>g\<close>
  flag) tries every start index in turn; \<open>test\<close> asks whether it finds a match.
\<close>

definition regex_exec :: "node list \<Rightarrow> string \<Rightarrow> string list option" where
  "regex_exec re s = first_some (\<lambda>i. match_seq re i (drop i s)) [0..<Suc (length s)]"

definition regex_test :: "node list \<Rightarrow> string \<Rightarrow> bool" where
  "regex_test re s = (regex_exec re s \<noteq> None)"

section \<open>The identifier grammar (utils/arn.ts)\<close>

text \<open>
  The pattern of \<open>parseARN\<close>: \<open>/^arn:([^:]+):([^:]+):([^:]*):([^:]*):(.+)$/\<close>.
\<close>

definition arnPattern_parse :: "node list" where
  "arnPattern_parse =
     [Assert_start] @ lit ''arn:'' @
     [Atom not_colon Plus True] @ lit '':'' @
     [Atom not_colon Plus True] @ lit '':'' @
     [Atom not_colon Star True] @ lit '':'' @
     [Atom not_colon Star True] @ lit '':'' @
     [Atom dot Plus True, Assert_end]"


subsection \<open>Facts about matching\<close>

lemma first_some_append:
  "first_some f (xs @ ys) = (case first_some f xs of Some y \<Rightarrow> Some y | None \<Rightarrow> first_some f ys)"
  by (induction xs) (auto split: option.splits)

lemma first_some_map: "first_some f (map g xs) = first_some (\<lambda>x. f (g x)) xs"
  by (induction xs) (auto split: option.splits)

lemma first_some_None: "(\<And>x. x \<in> set xs \<Longrightarrow> f x = None) \<Longrightarrow> first_some f xs = None"
  by (induction xs) auto

lemma first_some_None_iff: "first_some f xs = None \<longleftrightarrow> list_all (\<lambda>x. f x = None) xs"
  by (induction xs) (auto split: option.splits)

lemma first_some_greedy:
  assumes "\<And>u c r. p c \<Longrightarrow> K (u, c # r) = None"
  shows "first_some K (greedy p s) = K (takeWhile p s, dropWhile p s)"
  using assms
proof (induction s arbitrary: K)
  case Nil
  show ?case by (simp split: option.splits)
next
  case (Cons c cs)
  show ?case
  proof (cases "p c")
    case True
    have "first_some (\<lambda>x. K (c # fst x, snd x)) (greedy p cs)
        = K (c # takeWhile p cs, dropWhile p cs)"
      using Cons.IH [of "\<lambda>x. K (c # fst x, snd x)"] Cons.prems by simp
    moreover have "K ([], c # cs) = None" using Cons.prems True by simp
    ultimately show ?thesis using True
      by (simp add: first_some_append first_some_map split: option.splits)
  next
    case False
    then show ?thesis by (simp split: option.splits)
  qed
qed

lemma filter_greedy_Cons:
  "filter (\<lambda>ur. fst ur \<noteq> []) (map (\<lambda>ur. (c # fst ur, snd ur)) xs) = map (\<lambda>ur. (c # fst ur, snd ur)) xs"
  by (induction xs) auto

lemma first_some_greedy_plus:
  assumes "\<And>u c r. p c \<Longrightarrow> K (u, c # r) = None"
  shows "first_some K (filter (\<lambda>ur. fst ur \<noteq> []) (greedy p s))
       = (if takeWhile p s = [] then None else K (takeWhile p s, dropWhile p s))"
proof (cases s)
  case Nil
  then show ?thesis by simp
next
  case (Cons c cs)
  show ?thesis
  proof (cases "p c")
    case True
    have "first_some (\<lambda>x. K (c # fst x, snd x)) (greedy p cs)
        = K (c # takeWhile p cs, dropWhile p cs)"
      using first_some_greedy [of p "\<lambda>x. K (c # fst x, snd x)" cs] assms by simp
    then show ?thesis using True Cons
      by (simp add: filter_greedy_Cons first_some_map)
  next
    case False
    then show ?thesis using Cons by simp
  qed
qed

lemma match_seq_plus:
  assumes "\<forall>c r k. p c \<longrightarrow> match_seq ns k (c # r) = None"
  shows "match_seq (Atom p Plus cap # ns) pos s =
     (if takeWhile p s = [] then None
      else case match_seq ns (pos + length (takeWhile p s)) (dropWhile p s) of
             None \<Rightarrow> None
           | Some caps \<Rightarrow> Some (if cap then takeWhile p s # caps else caps))"
  using assms by (simp add: first_some_greedy_plus split: option.splits)

lemma match_seq_star:
  assumes "\<forall>c r k. p c \<longrightarrow> match_seq ns k (c # r) = None"
  shows "match_seq (Atom p Star cap # ns) pos s =
     (case match_seq ns (pos + length (takeWhile p s)) (dropWhile p s) of
             None \<Rightarrow> None
           | Some caps \<Rightarrow> Some (if cap then takeWhile p s # caps else caps))"
  using assms by (simp add: first_some_greedy split: option.splits)

lemma match_seq_char:
  "match_seq (Atom (\<lambda>x. x = c) Once False # ns) pos s =
     (case s of [] \<Rightarrow> None | d # ds \<Rightarrow> if d = c then match_seq ns (Suc pos) ds else None)"
  by (cases s) (auto split: option.splits)

lemma match_seq_end: "match_seq [Assert_end] pos s = (if s = [] then Some [] else None)"
  by simp

lemma match_seq_start_pos: "0 < i \<Longrightarrow> match_seq (Assert_start # ns) i s = None"
  by simp

lemma regex_exec_anchored: "regex_exec (Assert_start # ns) s = match_seq ns 0 s"
proof -
  have e: "[0..<Suc (length s)] = 0 # [Suc 0..<Suc (length s)]"
    by (rule upt_conv_Cons) simp
  have n: "first_some (\<lambda>i. match_seq (Assert_start # ns) i (drop i s)) [Suc 0..<Suc (length s)] = None"
    by (rule first_some_None) (use match_seq_start_pos in auto)
  show ?thesis
    unfolding regex_exec_def e first_some.simps n by (simp split: option.splits)
qed


text \<open>
  A class that excludes the colon, repeated and followed by a colon, can only stop at the
  first colon: \<open>cut p s\<close> splits \<open>s\<close> there when all characters before it are in \<open>p\<close>.
\<close>

definition cut :: "(char \<Rightarrow> bool) \<Rightarrow> string \<Rightarrow> (string \<times> string) option" where
  "cut p s =
     (case dropWhile p s of
        [] \<Rightarrow> None
      | d # ds \<Rightarrow> if d = CHR '':'' then Some (takeWhile p s, ds) else None)"

lemma cut_Some_iff:
  assumes "\<not> p CHR '':''"
  shows "cut p s = Some (f, r) \<longleftrightarrow> s = f @ CHR '':'' # r \<and> list_all p f"
proof
  assume "cut p s = Some (f, r)"
  then have d: "dropWhile p s = CHR '':'' # r" and f: "f = takeWhile p s"
    by (auto simp: cut_def split: list.splits if_splits)
  have "s = takeWhile p s @ dropWhile p s" by simp
  with d f show "s = f @ CHR '':'' # r \<and> list_all p f"
    by (auto simp: list_all_iff dest: set_takeWhileD)
next
  assume a: "s = f @ CHR '':'' # r \<and> list_all p f"
  with assms have "takeWhile p s = f" "dropWhile p s = CHR '':'' # r"
    by (auto simp: list_all_iff takeWhile_append2 dropWhile_append2)
  then show "cut p s = Some (f, r)" by (simp add: cut_def)
qed

lemma match_field_plus:
  assumes "\<not> p CHR '':''"
  shows "match_seq (Atom p Plus cap # Atom (\<lambda>x. x = CHR '':'') Once False # ns) pos s =
     (case cut p s of
        None \<Rightarrow> None
      | Some fr \<Rightarrow>
          if fst fr = [] then None
          else (case match_seq ns (Suc (pos + length (fst fr))) (snd fr) of
                  None \<Rightarrow> None
                | Some caps \<Rightarrow> Some (if cap then fst fr # caps else caps)))"
proof -
  have side: "\<forall>c r k. p c \<longrightarrow>
      match_seq (Atom (\<lambda>x. x = CHR '':'') Once False # ns) k (c # r) = None"
    using assms by auto
  show ?thesis
  proof (cases "dropWhile p s")
    case Nil
    show ?thesis
      unfolding match_seq_plus [of p, OF side] match_seq_char cut_def Nil
      by simp
  next
    case (Cons d ds)
    show ?thesis
      unfolding match_seq_plus [of p, OF side] match_seq_char cut_def Cons
      by (simp split: option.splits)
  qed
qed

lemma match_field_star:
  assumes "\<not> p CHR '':''"
  shows "match_seq (Atom p Star cap # Atom (\<lambda>x. x = CHR '':'') Once False # ns) pos s =
     (case cut p s of
        None \<Rightarrow> None
      | Some fr \<Rightarrow>
          (case match_seq ns (Suc (pos + length (fst fr))) (snd fr) of
                  None \<Rightarrow> None
                | Some caps \<Rightarrow> Some (if cap then fst fr # caps else caps)))"
proof -
  have side: "\<forall>c r k. p c \<longrightarrow>
      match_seq (Atom (\<lambda>x. x = CHR '':'') Once False # ns) k (c # r) = None"
    using assms by auto
  show ?thesis
  proof (cases "dropWhile p s")
    case Nil
    show ?thesis
      unfolding match_seq_star [of p, OF side] match_seq_char cut_def Nil
      by simp
  next
    case (Cons d ds)
    show ?thesis
      unfolding match_seq_star [of p, OF side] match_seq_char cut_def Cons
      by (simp split: option.splits)
  qed
qed

lemma not_colon_colon: "\<not> not_colon CHR '':''"
  by (simp add: not_colon_def)

lemma lower_digit_hyphen_colon: "\<not> lower_digit_hyphen CHR '':''"
  by (simp add: lower_digit_hyphen_def)

lemma digit_colon: "\<not> digit CHR '':''"
  by (simp add: digit_def)

lemma match_rest_plus:
  "match_seq [Atom p Plus cap, Assert_end] pos s =
     (if s \<noteq> [] \<and> list_all p s then Some (if cap then [s] else []) else None)"
proof -
  have side: "\<forall>c r k. p c \<longrightarrow> match_seq [Assert_end] k (c # r) = None"
    by simp
  have "dropWhile p s = [] \<longleftrightarrow> list_all p s"
    by (simp add: list_all_iff)
  moreover have "takeWhile p s = s" if "list_all p s"
    using that by (simp add: list_all_iff)
  moreover have "takeWhile p s = [] \<longleftrightarrow> s = []" if "list_all p s"
    using that by (cases s) auto
  ultimately show ?thesis
    unfolding match_seq_plus [of p, OF side] match_seq_end
    by (auto split: option.splits)
qed

lemma match_rest_star:
  "match_seq [Atom p Star cap, Assert_end] pos s =
     (if list_all p s then Some (if cap then [s] else []) else None)"
proof -
  have side: "\<forall>c r k. p c \<longrightarrow> match_seq [Assert_end] k (c # r) = None"
    by simp
  have "dropWhile p s = [] \<longleftrightarrow> list_all p s"
    by (simp add: list_all_iff)
  moreover have "takeWhile p s = s" if "list_all p s"
    using that by (simp add: list_all_iff)
  ultimately show ?thesis
    unfolding match_seq_star [of p, OF side] match_seq_end
    by (auto split: option.splits)
qed

text \<open>
  The pattern of \<open>parseARN\<close> read from left to right: what \<open>regex_exec\<close> returns on it.
\<close>

definition arn_fields :: "string \<Rightarrow> string list option" where
  "arn_fields s =
     (if take 4 s \<noteq> ''arn:'' then None
      else case cut not_colon (drop 4 s) of None \<Rightarrow> None | Some (p, s2) \<Rightarrow>
        if p = [] then None
        else case cut not_colon s2 of None \<Rightarrow> None | Some (sv, s3) \<Rightarrow>
          if sv = [] then None
          else case cut not_colon s3 of None \<Rightarrow> None | Some (rg, s4) \<Rightarrow>
            case cut not_colon s4 of None \<Rightarrow> None | Some (ac, rp) \<Rightarrow>
              if rp \<noteq> [] \<and> list_all dot rp then Some [p, sv, rg, ac, rp] else None)"

lemma match_lit4:
  "match_seq (Atom (\<lambda>x. x = a) Once False # Atom (\<lambda>x. x = b) Once False #
      Atom (\<lambda>x. x = c) Once False # Atom (\<lambda>x. x = d) Once False # ns) pos s
   = (if take 4 s = [a, b, c, d] then match_seq ns (pos + 4) (drop 4 s) else None)"
  unfolding match_seq_char
  by (auto split: list.splits simp: take_Suc_conv_app_nth numeral_eq_Suc)

lemma arnPattern_parse_fields: "regex_exec arnPattern_parse s = arn_fields s"
  unfolding arnPattern_parse_def lit_def list.map append.simps regex_exec_anchored
    match_lit4 match_field_plus [of not_colon, OF not_colon_colon]
    match_field_star [of not_colon, OF not_colon_colon]
    match_rest_plus arn_fields_def
  by (auto split: option.splits)


subsection \<open>parseARN, formatARN, validateARNFormat\<close>

text \<open>
  \<open>String.prototype.split\<close> with a one-character separator and \<open>Array.prototype.join\<close>.
\<close>

fun js_split :: "char \<Rightarrow> string \<Rightarrow> string list" where
  "js_split sep [] = [[]]"
| "js_split sep (c # cs) =
     (if c = sep then [] # js_split sep cs
      else (case js_split sep cs of [] \<Rightarrow> [[c]] | p # ps \<Rightarrow> (c # p) # ps))"

fun js_join :: "string \<Rightarrow> string list \<Rightarrow> string" where
  "js_join sep [] = []"
| "js_join sep [x] = x"
| "js_join sep (x # y # ys) = x @ sep @ js_join sep (y # ys)"

text \<open>
  The interface \<open>ParsedARN\<close>; \<open>resourceType\<close> is optional.
\<close>

record ParsedARN =
  arn_partition :: string
  arn_service :: string
  arn_region :: string
  arn_accountId :: string
  arn_resource :: string
  arn_resourceType :: "string option"

text \<open>
  \<open>parts[0]\<close> and \<open>parts.slice(1).join(sep)\<close> of \<open>resourcePart.split(sep)\<close>. The first
  part is the empty string when \<open>resourcePart\<close> starts with the separator.
\<close>

definition split_resource :: "char \<Rightarrow> string \<Rightarrow> string option \<times> string" where
  "split_resource sep resourcePart =
     (case js_split sep resourcePart of
        [] \<Rightarrow> (None, [])
      | p0 # rest \<Rightarrow> (Some p0, js_join [sep] rest))"

definition parseARN :: "string \<Rightarrow> ParsedARN option" where
  "parseARN arn =
     (case regex_exec arnPattern_parse arn of
        Some [partition', service, region, accountId, resourcePart] \<Rightarrow>
          (let tr = (if service = ''s3'' then (None, resourcePart)
                     else if CHR ''/'' \<in> set resourcePart then split_resource CHR ''/'' resourcePart
                     else if CHR '':'' \<in> set resourcePart then split_resource CHR '':'' resourcePart
                     else (None, resourcePart))
           in Some \<lparr>arn_partition = partition', arn_service = service, arn_region = region,
                    arn_accountId = accountId, arn_resource = snd tr,
                    arn_resourceType = fst tr\<rparr>)
      | _ \<Rightarrow> None)"

text \<open>
  \<open>formatARN\<close> tests \<open>parsed.resourceType\<close> for truthiness: an absent and an empty
  \<open>resourceType\<close> both take the second branch.
\<close>

definition formatARN :: "ParsedARN \<Rightarrow> string" where
  "formatARN parsed =
     (let resourcePart =
            (case arn_resourceType parsed of
               Some t \<Rightarrow>
                 if t \<noteq> [] then t @ ''/'' @ arn_resource parsed else arn_resource parsed
             | None \<Rightarrow> arn_resource parsed)
      in ''arn:'' @ arn_partition parsed @ '':'' @ arn_service parsed @ '':'' @
         arn_region parsed @ '':'' @ arn_accountId parsed @ '':'' @ resourcePart)"

text \<open>
  The pattern of \<open>validateARNFormat\<close>: \<open>/^arn:[^:]+:[^:]+:[^:]*:[^:]*:.+$/\<close>.
\<close>

definition arnPattern_format :: "node list" where
  "arnPattern_format =
     [Assert_start] @ lit ''arn:'' @
     [Atom not_colon Plus False] @ lit '':'' @
     [Atom not_colon Plus False] @ lit '':'' @
     [Atom not_colon Star False] @ lit '':'' @
     [Atom not_colon Star False] @ lit '':'' @
     [Atom dot Plus False, Assert_end]"

definition validateARNFormat :: "string \<Rightarrow> bool" where
  "validateARNFormat arn = regex_test arnPattern_format arn"

text \<open>
  Whether a pattern matches does not depend on its capture groups.
\<close>

fun uncapture :: "node \<Rightarrow> node" where
  "uncapture (Atom p q cap) = Atom p q False"
| "uncapture n = n"

lemma alternatives_uncapture: "alternatives (uncapture n) pos s = alternatives n pos s"
proof (cases n)
  case (Atom p q cap)
  then show ?thesis by (cases q) simp_all
qed simp_all

lemma match_seq_uncapture:
  "match_seq (map uncapture ns) pos s = None \<longleftrightarrow> match_seq ns pos s = None"
proof (induction ns arbitrary: pos s)
  case Nil
  show ?case by simp
next
  case (Cons n ns)
  have "list_all (\<lambda>ur. match_seq (map uncapture ns) (pos + length (fst ur)) (snd ur) = None) xs
      = list_all (\<lambda>ur. match_seq ns (pos + length (fst ur)) (snd ur) = None) xs" for xs
    by (induction xs) (simp_all add: Cons.IH)
  then show ?case
    by (simp add: first_some_None_iff alternatives_uncapture split: option.splits)
qed

lemma regex_test_uncapture: "regex_test (map uncapture re) s = regex_test re s"
proof -
  have "list_all (\<lambda>i. match_seq (map uncapture re) i (drop i s) = None) xs
      = list_all (\<lambda>i. match_seq re i (drop i s) = None) xs" for xs
    by (induction xs) (simp_all add: match_seq_uncapture)
  then show ?thesis
    by (simp add: regex_test_def regex_exec_def first_some_None_iff)
qed

lemma arnPattern_format_uncapture: "arnPattern_format = map uncapture arnPattern_parse"
  by (simp add: arnPattern_format_def arnPattern_parse_def lit_def)

lemmas cut_not_colon = cut_Some_iff [of not_colon, OF not_colon_colon]

lemma arn_fields_Some_iff:
  "arn_fields s = Some caps \<longleftrightarrow>
     (\<exists>p sv rg ac rp.
        caps = [p, sv, rg, ac, rp] \<and>
        s = ''arn:'' @ p @ '':'' @ sv @ '':'' @ rg @ '':'' @ ac @ '':'' @ rp \<and>
        p \<noteq> [] \<and> sv \<noteq> [] \<and> rp \<noteq> [] \<and>
        list_all not_colon p \<and> list_all not_colon sv \<and> list_all not_colon rg \<and>
        list_all not_colon ac \<and> list_all dot rp)"
proof
  assume "arn_fields s = Some caps"
  then obtain p s2 sv s3 rg s4 ac rp where
    t: "take 4 s = ''arn:''" and c1: "cut not_colon (drop 4 s) = Some (p, s2)" and
    c2: "cut not_colon s2 = Some (sv, s3)" and c3: "cut not_colon s3 = Some (rg, s4)" and
    c4: "cut not_colon s4 = Some (ac, rp)" and
    rest: "p \<noteq> []" "sv \<noteq> []" "rp \<noteq> []" "list_all dot rp" "caps = [p, sv, rg, ac, rp]"
    by (auto simp: arn_fields_def split: if_splits option.splits)
  have "s = take 4 s @ drop 4 s" by simp
  with t have "s = ''arn:'' @ drop 4 s" by metis
  with c1 c2 c3 c4 rest show "\<exists>p sv rg ac rp.
        caps = [p, sv, rg, ac, rp] \<and>
        s = ''arn:'' @ p @ '':'' @ sv @ '':'' @ rg @ '':'' @ ac @ '':'' @ rp \<and>
        p \<noteq> [] \<and> sv \<noteq> [] \<and> rp \<noteq> [] \<and>
        list_all not_colon p \<and> list_all not_colon sv \<and> list_all not_colon rg \<and>
        list_all not_colon ac \<and> list_all dot rp"
    by (auto simp: cut_not_colon)
next
  assume "\<exists>p sv rg ac rp.
        caps = [p, sv, rg, ac, rp] \<and>
        s = ''arn:'' @ p @ '':'' @ sv @ '':'' @ rg @ '':'' @ ac @ '':'' @ rp \<and>
        p \<noteq> [] \<and> sv \<noteq> [] \<and> rp \<noteq> [] \<and>
        list_all not_colon p \<and> list_all not_colon sv \<and> list_all not_colon rg \<and>
        list_all not_colon ac \<and> list_all dot rp"
  then obtain p sv rg ac rp where
    caps: "caps = [p, sv, rg, ac, rp]" and
    s: "s = ''arn:'' @ p @ '':'' @ sv @ '':'' @ rg @ '':'' @ ac @ '':'' @ rp" and
    ne: "p \<noteq> []" "sv \<noteq> []" "rp \<noteq> []" and
    cls: "list_all not_colon p" "list_all not_colon sv" "list_all not_colon rg"
      "list_all not_colon ac" "list_all dot rp"
    by blast
  have c1: "cut not_colon (p @ CHR '':'' # sv @ CHR '':'' # rg @ CHR '':'' # ac @ CHR '':'' # rp)
      = Some (p, sv @ CHR '':'' # rg @ CHR '':'' # ac @ CHR '':'' # rp)"
    using cls by (simp add: cut_not_colon)
  have c2: "cut not_colon (sv @ CHR '':'' # rg @ CHR '':'' # ac @ CHR '':'' # rp)
      = Some (sv, rg @ CHR '':'' # ac @ CHR '':'' # rp)"
    using cls by (simp add: cut_not_colon)
  have c3: "cut not_colon (rg @ CHR '':'' # ac @ CHR '':'' # rp) = Some (rg, ac @ CHR '':'' # rp)"
    using cls by (simp add: cut_not_colon)
  have c4: "cut not_colon (ac @ CHR '':'' # rp) = Some (ac, rp)"
    using cls by (simp add: cut_not_colon)
  show "arn_fields s = Some caps"
    unfolding arn_fields_def s using ne cls caps
    by (simp add: c1 c2 c3 c4)
qed


lemma js_split_not_Nil: "js_split sep s \<noteq> []"
  by (induction s) (auto split: list.splits)

lemma length_js_split: "length (js_split sep s) = Suc (count_list s sep)"
proof (induction s)
  case Nil
  show ?case by simp
next
  case (Cons c cs)
  then show ?case using js_split_not_Nil [of sep cs]
    by (auto split: list.splits)
qed

lemma js_split_field:
  "sep \<notin> set f \<Longrightarrow> js_split sep (f @ sep # r) = f # js_split sep r"
  by (induction f) (auto split: list.splits)

text \<open>
  \<open>parseARN\<close> in terms of the five fields.
\<close>

lemma parseARN_fields:
  "parseARN s =
     (case arn_fields s of
        None \<Rightarrow> None
      | Some caps \<Rightarrow>
          (let tr = (if caps ! 1 = ''s3'' then (None, caps ! 4)
                     else if CHR ''/'' \<in> set (caps ! 4) then split_resource CHR ''/'' (caps ! 4)
                     else if CHR '':'' \<in> set (caps ! 4) then split_resource CHR '':'' (caps ! 4)
                     else (None, caps ! 4))
           in Some \<lparr>arn_partition = caps ! 0, arn_service = caps ! 1, arn_region = caps ! 2,
                    arn_accountId = caps ! 3, arn_resource = snd tr,
                    arn_resourceType = fst tr\<rparr>))"
proof (cases "arn_fields s")
  case None
  then show ?thesis by (simp add: parseARN_def arnPattern_parse_fields)
next
  case (Some caps)
  then obtain p sv rg ac rp where "caps = [p, sv, rg, ac, rp]"
    unfolding arn_fields_Some_iff by blast
  with Some show ?thesis by (simp add: parseARN_def arnPattern_parse_fields)
qed

lemma parseARN_None_iff: "parseARN s = None \<longleftrightarrow> arn_fields s = None"
  by (simp add: parseARN_fields Let_def split: option.splits)

text \<open>
  C6. \<open>parseARN\<close> returns null on every string with fewer than six fields between
  colons. When it succeeds with the service \<open>s3\<close>, there is no \<open>resourceType\<close> and the
  resource is everything after the fifth colon, slashes included. On
  \<open>arn:aws:s3:::my-bucket\<close> it returns the partition \<open>aws\<close>, the service \<open>s3\<close>, an empty
  region and account, the resource \<open>my-bucket\<close> and no \<open>resourceType\<close>.
\<close>

theorem parseARN_six_fields_and_s3:
  "(length (js_split CHR '':'' x) < 6 \<longrightarrow> parseARN x = None) \<and>
   (parseARN x = Some parsed \<and> arn_service parsed = ''s3'' \<longrightarrow>
      arn_resourceType parsed = None \<and>
      x = ''arn:'' @ arn_partition parsed @ '':s3:'' @ arn_region parsed @ '':'' @
          arn_accountId parsed @ '':'' @ arn_resource parsed \<and>
      list_all not_colon (arn_partition parsed) \<and> list_all not_colon (arn_region parsed) \<and>
      list_all not_colon (arn_accountId parsed)) \<and>
   parseARN ''arn:aws:s3:::my-bucket'' =
     Some \<lparr>arn_partition = ''aws'', arn_service = ''s3'', arn_region = [], arn_accountId = [],
           arn_resource = ''my-bucket'', arn_resourceType = None\<rparr>"
proof (intro conjI impI)
  assume few: "length (js_split CHR '':'' x) < 6"
  show "parseARN x = None"
  proof (rule ccontr)
    assume "parseARN x \<noteq> None"
    then obtain caps where "arn_fields x = Some caps"
      by (auto simp: parseARN_None_iff)
    then obtain p sv rg ac rp where
      "x = ''arn:'' @ p @ '':'' @ sv @ '':'' @ rg @ '':'' @ ac @ '':'' @ rp"
      unfolding arn_fields_Some_iff by blast
    then have "5 \<le> count_list x CHR '':''" by simp
    with few show False by (simp add: length_js_split)
  qed
next
  assume a: "parseARN x = Some parsed \<and> arn_service parsed = ''s3''"
  then obtain caps where c: "arn_fields x = Some caps"
    by (cases "arn_fields x") (auto simp: parseARN_fields)
  then obtain p sv rg ac rp where caps: "caps = [p, sv, rg, ac, rp]" and
    x: "x = ''arn:'' @ p @ '':'' @ sv @ '':'' @ rg @ '':'' @ ac @ '':'' @ rp" and
    cls: "list_all not_colon p" "list_all not_colon rg" "list_all not_colon ac"
    unfolding arn_fields_Some_iff by blast
  from a c caps have sv: "sv = ''s3''"
    by (auto simp: parseARN_fields Let_def)
  from a c caps sv have parsed: "parsed = \<lparr>arn_partition = p, arn_service = ''s3'', arn_region = rg,
      arn_accountId = ac, arn_resource = rp, arn_resourceType = None\<rparr>"
    by (auto simp: parseARN_fields Let_def)
  show "arn_resourceType parsed = None" by (simp add: parsed)
  show "x = ''arn:'' @ arn_partition parsed @ '':s3:'' @ arn_region parsed @ '':'' @
          arn_accountId parsed @ '':'' @ arn_resource parsed"
    by (simp add: parsed x sv)
  show "list_all not_colon (arn_partition parsed)" "list_all not_colon (arn_region parsed)"
    "list_all not_colon (arn_accountId parsed)"
    using cls by (simp_all add: parsed)
next
  show "parseARN ''arn:aws:s3:::my-bucket'' =
     Some \<lparr>arn_partition = ''aws'', arn_service = ''s3'', arn_region = [], arn_accountId = [],
           arn_resource = ''my-bucket'', arn_resourceType = None\<rparr>"
    by (simp add: parseARN_fields arn_fields_def cut_def not_colon_def dot_def)
qed

text \<open>
  A string of three fields, and a bucket ARN with an object key.
\<close>

theorem parseARN_six_fields_and_s3_witness:
  "length (js_split CHR '':'' ''arn:aws:s3'') < 6 \<and> parseARN ''arn:aws:s3'' = None \<and>
   parseARN ''arn:aws:s3:::my-bucket/key'' =
     Some \<lparr>arn_partition = ''aws'', arn_service = ''s3'', arn_region = [], arn_accountId = [],
           arn_resource = ''my-bucket/key'', arn_resourceType = None\<rparr> \<and>
   arn_service \<lparr>arn_partition = ''aws'', arn_service = ''s3'', arn_region = [], arn_accountId = [],
           arn_resource = ''my-bucket/key'', arn_resourceType = None\<rparr> = ''s3'' \<and>
   arn_resourceType \<lparr>arn_partition = ''aws'', arn_service = ''s3'', arn_region = [],
           arn_accountId = [], arn_resource = ''my-bucket/key'', arn_resourceType = None\<rparr> = None \<and>
   list_all not_colon (arn_partition \<lparr>arn_partition = ''aws'', arn_service = ''s3'',
           arn_region = [], arn_accountId = [], arn_resource = ''my-bucket/key'',
           arn_resourceType = None\<rparr>)"
proof -
  let ?P = "\<lparr>arn_partition = ''aws'', arn_service = ''s3'', arn_region = [], arn_accountId = [],
           arn_resource = ''my-bucket/key'', arn_resourceType = None\<rparr>"
  have l: "length (js_split CHR '':'' ''arn:aws:s3'') < 6"
    by simp
  have p: "parseARN ''arn:aws:s3:::my-bucket/key'' = Some ?P"
    by (simp add: parseARN_fields arn_fields_def cut_def not_colon_def dot_def)
  have sv: "arn_service ?P = ''s3''"
    by simp
  have n: "parseARN ''arn:aws:s3'' = None"
    using parseARN_six_fields_and_s3 [of "''arn:aws:s3''"] l by blast
  have q: "arn_resourceType ?P = None \<and> list_all not_colon (arn_partition ?P)"
    using parseARN_six_fields_and_s3 [of "''arn:aws:s3:::my-bucket/key''" ?P] p sv by blast
  from l n p sv q show ?thesis by blast
qed

text \<open>
  C10. \<open>validateARNFormat\<close> accepts exactly the strings on which \<open>parseARN\<close> succeeds.
\<close>

theorem validateARNFormat_iff_parseARN: "validateARNFormat x = (parseARN x \<noteq> None)"
proof -
  have "validateARNFormat x = (regex_exec arnPattern_parse x \<noteq> None)"
    unfolding validateARNFormat_def arnPattern_format_uncapture regex_test_uncapture
    by (simp add: regex_test_def)
  then show ?thesis
    by (simp add: arnPattern_parse_fields parseARN_None_iff)
qed

subsection \<open>Parsing a formatted identifier\<close>

text \<open>
  When the parsed \<open>resourceType\<close> is not the empty string, formatting the parsed value and
  parsing the result gives the parsed value back.
\<close>

lemma js_join_js_split: "js_join [sep] (js_split sep s) = s"
proof (induction s)
  case Nil
  show ?case by simp
next
  case (Cons c cs)
  obtain p ps where ps: "js_split sep cs = p # ps"
    using js_split_not_Nil [of sep cs] by (cases "js_split sep cs") auto
  with Cons show ?case by (cases ps) auto
qed

lemma split_resource_at:
  assumes "sep \<notin> set t"
  shows "split_resource sep (t @ sep # r) = (Some t, r)"
  using assms by (simp add: split_resource_def js_split_field js_join_js_split)

lemma parseARN_of_fields:
  assumes "arn_fields x = Some [pa, sv, rg, ac, rp]"
  shows "parseARN x =
     Some \<lparr>arn_partition = pa, arn_service = sv, arn_region = rg, arn_accountId = ac,
           arn_resource =
             snd (if sv = ''s3'' then (None, rp)
                  else if CHR ''/'' \<in> set rp then split_resource CHR ''/'' rp
                  else if CHR '':'' \<in> set rp then split_resource CHR '':'' rp
                  else (None, rp)),
           arn_resourceType =
             fst (if sv = ''s3'' then (None, rp)
                  else if CHR ''/'' \<in> set rp then split_resource CHR ''/'' rp
                  else if CHR '':'' \<in> set rp then split_resource CHR '':'' rp
                  else (None, rp))\<rparr>"
  using assms by (simp add: parseARN_fields Let_def)

lemma formatARN_fields:
  assumes "arn_fields x = Some [pa, sv, rg, ac, rp]"
  shows "x = ''arn:'' @ pa @ '':'' @ sv @ '':'' @ rg @ '':'' @ ac @ '':'' @ rp"
  using assms unfolding arn_fields_Some_iff by auto

lemma arn_fields_replace_rest:
  assumes "arn_fields x = Some [pa, sv, rg, ac, rp]" and "rp' \<noteq> []" and "list_all dot rp'"
  shows "arn_fields (''arn:'' @ pa @ '':'' @ sv @ '':'' @ rg @ '':'' @ ac @ '':'' @ rp')
       = Some [pa, sv, rg, ac, rp']"
  using assms unfolding arn_fields_Some_iff by auto

lemma parse_format_parse_stable:
  assumes "parseARN x = Some parsed" and "arn_resourceType parsed \<noteq> Some []"
  shows "parseARN (formatARN parsed) = Some parsed"
proof -
  from assms(1) obtain caps where c: "arn_fields x = Some caps"
    by (cases "arn_fields x") (auto simp: parseARN_fields)
  then obtain pa sv rg ac rp where caps: "caps = [pa, sv, rg, ac, rp]"
    and dots: "list_all dot rp" and ne: "rp \<noteq> []"
    unfolding arn_fields_Some_iff by blast
  note f = c [unfolded caps]
  note x = formatARN_fields [OF f]
  note p = parseARN_of_fields [OF f]
  consider (s3) "sv = ''s3''"
    | (slash) "sv \<noteq> ''s3''" "CHR ''/'' \<in> set rp"
    | (colon) "sv \<noteq> ''s3''" "CHR ''/'' \<notin> set rp" "CHR '':'' \<in> set rp"
    | (plain) "sv \<noteq> ''s3''" "CHR ''/'' \<notin> set rp" "CHR '':'' \<notin> set rp"
    by blast
  then show ?thesis
  proof cases
    case s3
    with p assms(1) have "formatARN parsed = x"
      by (auto simp: formatARN_def x)
    with assms(1) show ?thesis by simp
  next
    case plain
    with p assms(1) have "formatARN parsed = x"
      by (auto simp: formatARN_def x)
    with assms(1) show ?thesis by simp
  next
    case slash
    then obtain t r where rp: "rp = t @ CHR ''/'' # r" and t: "CHR ''/'' \<notin> set t"
      using split_list_first [of "CHR ''/''" rp] by blast
    from p slash assms(1) have parsed: "parsed = \<lparr>arn_partition = pa, arn_service = sv,
        arn_region = rg, arn_accountId = ac, arn_resource = r, arn_resourceType = Some t\<rparr>"
      by (simp add: rp split_resource_at [OF t])
    with assms(2) have "t \<noteq> []" by simp
    then have "formatARN parsed = x"
      by (simp add: formatARN_def parsed x rp)
    with assms(1) show ?thesis by simp
  next
    case colon
    then obtain t r where rp: "rp = t @ CHR '':'' # r" and t: "CHR '':'' \<notin> set t"
      using split_list_first [of "CHR '':''" rp] by blast
    from colon rp have t': "CHR ''/'' \<notin> set t" by simp
    from p colon assms(1) have parsed: "parsed = \<lparr>arn_partition = pa, arn_service = sv,
        arn_region = rg, arn_accountId = ac, arn_resource = r, arn_resourceType = Some t\<rparr>"
      by (simp add: rp [symmetric]) (simp add: rp split_resource_at [OF t])
    with assms(2) have tne: "t \<noteq> []" by simp
    then have fm: "formatARN parsed
        = ''arn:'' @ pa @ '':'' @ sv @ '':'' @ rg @ '':'' @ ac @ '':'' @ (t @ CHR ''/'' # r)"
      by (simp add: formatARN_def parsed)
    have "list_all dot (t @ CHR ''/'' # r)"
      using dots by (simp add: rp dot_def)
    then have "arn_fields (formatARN parsed) = Some [pa, sv, rg, ac, t @ CHR ''/'' # r]"
      unfolding fm by (intro arn_fields_replace_rest [OF f]) simp_all
    from parseARN_of_fields [OF this] colon show ?thesis
      by (simp add: split_resource_at [OF t'] parsed)
  qed
qed

text \<open>
  C7. The round trip \<open>parseARN (formatARN (parseARN x))\<close> on the API Gateway identifier
  \<open>arn:aws:apigateway:us-east-1::/restapis/abc\<close>, whose resource part starts with a slash:
  the first parse yields the empty \<open>resourceType\<close> and the resource \<open>restapis/abc\<close>,
  \<open>formatARN\<close> drops the empty \<open>resourceType\<close> together with the slash, and the second
  parse yields the \<open>resourceType\<close> \<open>restapis\<close> and the resource \<open>abc\<close>. On
  \<open>arn:aws:ec2:::/\<close> the formatted string has an empty resource part and does not parse.
\<close>

theorem parse_format_parse_differs:
  "parseARN ''arn:aws:apigateway:us-east-1::/restapis/abc'' =
     Some \<lparr>arn_partition = ''aws'', arn_service = ''apigateway'', arn_region = ''us-east-1'',
           arn_accountId = [], arn_resource = ''restapis/abc'', arn_resourceType = Some []\<rparr> \<and>
   formatARN \<lparr>arn_partition = ''aws'', arn_service = ''apigateway'', arn_region = ''us-east-1'',
           arn_accountId = [], arn_resource = ''restapis/abc'', arn_resourceType = Some []\<rparr>
     = ''arn:aws:apigateway:us-east-1::restapis/abc'' \<and>
   parseARN ''arn:aws:apigateway:us-east-1::restapis/abc'' =
     Some \<lparr>arn_partition = ''aws'', arn_service = ''apigateway'', arn_region = ''us-east-1'',
           arn_accountId = [], arn_resource = ''abc'', arn_resourceType = Some ''restapis''\<rparr> \<and>
   Option.bind (parseARN ''arn:aws:apigateway:us-east-1::/restapis/abc'')
       (\<lambda>parsed. parseARN (formatARN parsed))
     \<noteq> parseARN ''arn:aws:apigateway:us-east-1::/restapis/abc'' \<and>
   parseARN ''arn:aws:ec2:::/'' =
     Some \<lparr>arn_partition = ''aws'', arn_service = ''ec2'', arn_region = [],
           arn_accountId = [], arn_resource = [], arn_resourceType = Some []\<rparr> \<and>
   Option.bind (parseARN ''arn:aws:ec2:::/'') (\<lambda>parsed. parseARN (formatARN parsed)) = None"
proof -
  have a: "parseARN ''arn:aws:apigateway:us-east-1::/restapis/abc'' =
     Some \<lparr>arn_partition = ''aws'', arn_service = ''apigateway'', arn_region = ''us-east-1'',
           arn_accountId = [], arn_resource = ''restapis/abc'', arn_resourceType = Some []\<rparr>"
    by (simp add: parseARN_def regex_exec_def arnPattern_parse_def lit_def not_colon_def dot_def
        split_resource_def)
  have b: "formatARN \<lparr>arn_partition = ''aws'', arn_service = ''apigateway'', arn_region = ''us-east-1'',
           arn_accountId = [], arn_resource = ''restapis/abc'', arn_resourceType = Some []\<rparr>
     = ''arn:aws:apigateway:us-east-1::restapis/abc''"
    by (simp add: formatARN_def)
  have c: "parseARN ''arn:aws:apigateway:us-east-1::restapis/abc'' =
     Some \<lparr>arn_partition = ''aws'', arn_service = ''apigateway'', arn_region = ''us-east-1'',
           arn_accountId = [], arn_resource = ''abc'', arn_resourceType = Some ''restapis''\<rparr>"
    by (simp add: parseARN_def regex_exec_def arnPattern_parse_def lit_def not_colon_def dot_def
        split_resource_def)
  have d: "parseARN ''arn:aws:ec2:::/'' =
     Some \<lparr>arn_partition = ''aws'', arn_service = ''ec2'', arn_region = [],
           arn_accountId = [], arn_resource = [], arn_resourceType = Some []\<rparr>"
    by (simp add: parseARN_def regex_exec_def arnPattern_parse_def lit_def not_colon_def dot_def
        split_resource_def)
  have e: "formatARN \<lparr>arn_partition = ''aws'', arn_service = ''ec2'', arn_region = [],
           arn_accountId = [], arn_resource = [], arn_resourceType = Some []\<rparr> = ''arn:aws:ec2:::''"
    by (simp add: formatARN_def)
  have f: "parseARN ''arn:aws:ec2:::'' = None"
    by (simp add: parseARN_def regex_exec_def arnPattern_parse_def lit_def not_colon_def dot_def)
  show ?thesis unfolding a d by (simp add: b c e f)
qed

section \<open>validateARN (PolicyCore.ts)\<close>

text \<open>
  The pattern of \<open>validateARN\<close>: \<open>/^arn:aws:[a-z0-9-]+:[a-z0-9-]*:[0-9]*:.*$/\<close>.
\<close>

definition arnPattern_validate :: "node list" where
  "arnPattern_validate =
     [Assert_start] @ lit ''arn:aws:'' @
     [Atom lower_digit_hyphen Plus False] @ lit '':'' @
     [Atom lower_digit_hyphen Star False] @ lit '':'' @
     [Atom digit Star False] @ lit '':'' @
     [Atom dot Star False, Assert_end]"

text \<open>
  Indexing an array: \<open>undefined\<close> out of range.
\<close>

fun nth_opt :: "'a list \<Rightarrow> nat \<Rightarrow> 'a option" where
  "nth_opt [] n = None"
| "nth_opt (x # xs) 0 = Some x"
| "nth_opt (x # xs) (Suc n) = nth_opt xs n"

text \<open>
  \<open>validateARN\<close> does not read the engine state. An \<open>undefined\<close> third field would be
  printed as \<open>undefined\<close> by the template literal.
\<close>

definition validateARN :: "string \<Rightarrow> string \<Rightarrow> ValidationResult" where
  "validateARN service arn =
     (if arn = [] then
        \<lparr>valid = False, message = Some ''ARN is required'', suggestions = None\<rparr>
      else if \<not> regex_test arnPattern_validate arn then
        \<lparr>valid = False, message = Some ''Invalid ARN format'',
         suggestions = Some [''arn:aws:'' @ service @ '':region:account-id:resource'']\<rparr>
      else
        (let arnService = nth_opt (js_split CHR '':'' arn) 2
         in if arnService \<noteq> Some service then
              \<lparr>valid = False,
               message = Some (''ARN service mismatch. Expected '' @ service @ '', got '' @
                          (case arnService of None \<Rightarrow> ''undefined'' | Some a \<Rightarrow> a)),
               suggestions = None\<rparr>
            else \<lparr>valid = True, message = None, suggestions = None\<rparr>))"

text \<open>
  The shape the pattern of \<open>validateARN\<close> accepts, with the service field \<open>sv\<close>: the
  literal \<open>arn:aws:\<close>, a non-empty service of lower-case letters, digits and hyphens, a
  region of the same characters, an account of digits, and a last field without line
  terminators, separated by colons. \<open>contains m w\<close>: the text \<open>w\<close> occurs in \<open>m\<close>.
  \<open>five_colon_shape\<close> is the shape in the words of the specification: the literal domain
  tag and five colons with a trailing field, that is, at least six fields between colons.
  It is the wider of the two.
\<close>

definition has_shape :: "string \<Rightarrow> string \<Rightarrow> bool" where
  "has_shape arn sv =
     (\<exists>rg ac rest.
        arn = ''arn:aws:'' @ sv @ '':'' @ rg @ '':'' @ ac @ '':'' @ rest \<and> sv \<noteq> [] \<and>
        list_all lower_digit_hyphen sv \<and> list_all lower_digit_hyphen rg \<and>
        list_all digit ac \<and> list_all dot rest)"

definition contains :: "string \<Rightarrow> string \<Rightarrow> bool" where
  "contains m w = (\<exists>ps ss. m = ps @ w @ ss)"

definition five_colon_shape :: "string \<Rightarrow> bool" where
  "five_colon_shape arn = (take 8 arn = ''arn:aws:'' \<and> 6 \<le> length (js_split CHR '':'' arn))"

lemmas cut_ldh = cut_Some_iff [of lower_digit_hyphen, OF lower_digit_hyphen_colon]
lemmas cut_digit = cut_Some_iff [of digit, OF digit_colon]

text \<open>
  The pattern of \<open>validateARN\<close> read from left to right; it yields the service field.
\<close>

definition validate_fields :: "string \<Rightarrow> string option" where
  "validate_fields s =
     (if take 8 s \<noteq> ''arn:aws:'' then None
      else case cut lower_digit_hyphen (drop 8 s) of None \<Rightarrow> None | Some (sv, s2) \<Rightarrow>
        if sv = [] then None
        else case cut lower_digit_hyphen s2 of None \<Rightarrow> None | Some (rg, s3) \<Rightarrow>
          case cut digit s3 of None \<Rightarrow> None | Some (ac, rest) \<Rightarrow>
            if list_all dot rest then Some sv else None)"

lemma take_drop_4_4: "take 4 s = [a, b, c, d] \<and> take 4 (drop 4 s) = [e, f, g, h]
   \<longleftrightarrow> take 8 s = [a, b, c, d, e, f, g, h]"
proof
  assume "take 4 s = [a, b, c, d] \<and> take 4 (drop 4 s) = [e, f, g, h]"
  then show "take 8 s = [a, b, c, d, e, f, g, h]"
    using take_add [of 4 4 s] by simp
next
  assume r: "take 8 s = [a, b, c, d, e, f, g, h]"
  then have "length (take 8 s) = 8" by simp
  then have l: "length (take 4 s) = length [a, b, c, d]" by simp
  from r have "take 4 s @ take 4 (drop 4 s) = [a, b, c, d] @ [e, f, g, h]"
    using take_add [of 4 4 s] by simp
  with l show "take 4 s = [a, b, c, d] \<and> take 4 (drop 4 s) = [e, f, g, h]"
    using append_eq_append_conv by blast
qed

lemma arnPattern_validate_fields:
  "regex_test arnPattern_validate s = (validate_fields s \<noteq> None)"
proof -
  have "regex_exec arnPattern_validate s =
    (if take 4 s = ''arn:'' then
       if take 4 (drop 4 s) = ''aws:'' then
         (case cut lower_digit_hyphen (drop 4 (drop 4 s)) of None \<Rightarrow> None | Some (sv, s2) \<Rightarrow>
        if sv = [] then None
        else case cut lower_digit_hyphen s2 of None \<Rightarrow> None | Some (rg, s3) \<Rightarrow>
          case cut digit s3 of None \<Rightarrow> None | Some (ac, rest) \<Rightarrow>
            if list_all dot rest then Some [] else None)
       else None
     else None)"
    unfolding arnPattern_validate_def lit_def list.map append.simps regex_exec_anchored
      match_lit4 match_field_plus [of lower_digit_hyphen, OF lower_digit_hyphen_colon]
      match_field_star [of lower_digit_hyphen, OF lower_digit_hyphen_colon]
      match_field_star [of digit, OF digit_colon] match_rest_star
    by (auto split: option.splits)
  then show ?thesis
    using take_drop_4_4 [of s "CHR ''a''" "CHR ''r''" "CHR ''n''" "CHR '':''"
        "CHR ''a''" "CHR ''w''" "CHR ''s''" "CHR '':''"]
    by (auto simp: regex_test_def validate_fields_def split: option.splits)
qed

lemma validate_fields_Some_iff: "validate_fields s = Some sv \<longleftrightarrow> has_shape s sv"
proof
  assume "validate_fields s = Some sv"
  then obtain s2 rg s3 ac rest where
    t: "take 8 s = ''arn:aws:''" and c1: "cut lower_digit_hyphen (drop 8 s) = Some (sv, s2)" and
    c2: "cut lower_digit_hyphen s2 = Some (rg, s3)" and c3: "cut digit s3 = Some (ac, rest)" and
    r: "sv \<noteq> []" "list_all dot rest"
    by (auto simp: validate_fields_def split: if_splits option.splits)
  have "s = take 8 s @ drop 8 s" by simp
  with t have "s = ''arn:aws:'' @ drop 8 s" by metis
  with c1 c2 c3 r show "has_shape s sv"
    unfolding has_shape_def cut_ldh cut_digit by auto
next
  assume "has_shape s sv"
  then obtain rg ac rest where
    s: "s = ''arn:aws:'' @ sv @ '':'' @ rg @ '':'' @ ac @ '':'' @ rest" and
    ne: "sv \<noteq> []" and
    cls: "list_all lower_digit_hyphen sv" "list_all lower_digit_hyphen rg"
      "list_all digit ac" "list_all dot rest"
    unfolding has_shape_def by blast
  have c1: "cut lower_digit_hyphen (sv @ CHR '':'' # rg @ CHR '':'' # ac @ CHR '':'' # rest)
      = Some (sv, rg @ CHR '':'' # ac @ CHR '':'' # rest)"
    using cls by (simp add: cut_ldh)
  have c2: "cut lower_digit_hyphen (rg @ CHR '':'' # ac @ CHR '':'' # rest)
      = Some (rg, ac @ CHR '':'' # rest)"
    using cls by (simp add: cut_ldh)
  have c3: "cut digit (ac @ CHR '':'' # rest) = Some (ac, rest)"
    using cls by (simp add: cut_digit)
  show "validate_fields s = Some sv"
    unfolding validate_fields_def s using ne cls by (simp add: c1 c2 c3)
qed

lemma has_shape_third_field:
  assumes "has_shape arn sv"
  shows "nth_opt (js_split CHR '':'' arn) 2 = Some sv"
proof -
  from assms obtain rest where
    s: "arn = ''arn'' @ CHR '':'' # ''aws'' @ CHR '':'' # sv @ CHR '':'' # rest" and
    cls: "list_all lower_digit_hyphen sv"
    unfolding has_shape_def by auto
  from cls have "CHR '':'' \<notin> set sv"
    using lower_digit_hyphen_colon by (auto simp: list_all_iff)
  then show ?thesis
    unfolding s by (simp add: js_split_field numeral_2_eq_2)
qed


lemma regex_test_validate_iff: "regex_test arnPattern_validate arn \<longleftrightarrow> (\<exists>sv. has_shape arn sv)"
  unfolding arnPattern_validate_fields
  using validate_fields_Some_iff [of arn] by (cases "validate_fields arn") auto

lemma has_shape_not_empty: "has_shape arn sv \<Longrightarrow> arn \<noteq> []"
  by (auto simp: has_shape_def)

lemma has_shape_five_colon: "has_shape arn sv \<Longrightarrow> five_colon_shape arn"
proof -
  assume "has_shape arn sv"
  then obtain rg ac rest where
    "arn = ''arn:aws:'' @ sv @ '':'' @ rg @ '':'' @ ac @ '':'' @ rest"
    unfolding has_shape_def by blast
  then have "take 8 arn = ''arn:aws:''" and "5 \<le> count_list arn CHR '':''"
    by simp_all
  then show ?thesis
    by (simp add: five_colon_shape_def length_js_split)
qed

lemma contains_self: "contains m m"
  unfolding contains_def by (rule exI [of _ "[]"], rule exI [of _ "[]"]) simp

lemma contains_required: "contains ''ARN is required'' ''required''"
  unfolding contains_def by (rule exI [of _ "''ARN is ''"], rule exI [of _ "[]"]) simp

lemma contains_mismatch:
  "contains (''ARN service mismatch. Expected '' @ a @ '', got '' @ b) ''service mismatch''"
  unfolding contains_def
  by (rule exI [of _ "''ARN ''"], rule exI [of _ "''. Expected '' @ a @ '', got '' @ b"]) simp

text \<open>
  C8 (as amended). \<open>validateARN\<close> answers an empty identifier with a message that
  contains \<open>required\<close>; an identifier that does not have the shape of the code's pattern
  (\<open>has_shape\<close>: the literal \<open>arn:aws:\<close>, a non-empty service of lower-case letters,
  digits and hyphens, a region of the same characters, an account of digits, a last
  field without line terminators) with a message that contains \<open>Invalid ARN format\<close> and
  the suggestion \<open>arn:aws:<service>:region:account-id:resource\<close>; an identifier of that
  shape whose service field (its third field) is not the expected service with a message
  that contains \<open>service mismatch\<close>; and every other identifier with \<open>{valid: true}\<close>.
  That shape is narrower than five colons and a trailing field with the literal domain
  tag.
\<close>

theorem validateARN_cases:
  "(arn = [] \<longrightarrow>
      \<not> valid (validateARN service arn) \<and>
      (\<exists>m. message (validateARN service arn) = Some m \<and> contains m ''required'')) \<and>
   (arn \<noteq> [] \<and> (\<forall>sv. \<not> has_shape arn sv) \<longrightarrow>
      \<not> valid (validateARN service arn) \<and>
      (\<exists>m. message (validateARN service arn) = Some m \<and> contains m ''Invalid ARN format'') \<and>
      suggestions (validateARN service arn)
        = Some [''arn:aws:'' @ service @ '':region:account-id:resource'']) \<and>
   (has_shape arn sv \<and> sv \<noteq> service \<longrightarrow>
      \<not> valid (validateARN service arn) \<and>
      (\<exists>m. message (validateARN service arn) = Some m \<and> contains m ''service mismatch'')) \<and>
   (has_shape arn service \<longrightarrow>
      validateARN service arn = \<lparr>valid = True, message = None, suggestions = None\<rparr>) \<and>
   (has_shape arn sv \<longrightarrow> five_colon_shape arn)"
proof (intro conjI impI)
  assume "arn = []"
  then have r: "validateARN service arn
      = \<lparr>valid = False, message = Some ''ARN is required'', suggestions = None\<rparr>"
    by (simp add: validateARN_def)
  show "\<not> valid (validateARN service arn)" by (simp add: r)
  show "\<exists>m. message (validateARN service arn) = Some m \<and> contains m ''required''"
    using contains_required by (simp add: r)
next
  assume "arn \<noteq> [] \<and> (\<forall>sv. \<not> has_shape arn sv)"
  then have r: "validateARN service arn
      = \<lparr>valid = False, message = Some ''Invalid ARN format'',
         suggestions = Some [''arn:aws:'' @ service @ '':region:account-id:resource'']\<rparr>"
    by (simp add: validateARN_def regex_test_validate_iff)
  show "\<not> valid (validateARN service arn)" by (simp add: r)
  show "\<exists>m. message (validateARN service arn) = Some m \<and> contains m ''Invalid ARN format''"
    using contains_self by (simp add: r)
  show "suggestions (validateARN service arn)
        = Some [''arn:aws:'' @ service @ '':region:account-id:resource'']"
    by (simp add: r)
next
  assume a: "has_shape arn sv \<and> sv \<noteq> service"
  then have t: "regex_test arnPattern_validate arn" "arn \<noteq> []"
    "nth_opt (js_split CHR '':'' arn) 2 = Some sv"
    using regex_test_validate_iff has_shape_not_empty has_shape_third_field by blast+
  with a have r: "validateARN service arn
      = \<lparr>valid = False,
         message = Some (''ARN service mismatch. Expected '' @ service @ '', got '' @ sv),
         suggestions = None\<rparr>"
    by (simp add: validateARN_def)
  show "\<not> valid (validateARN service arn)" by (simp add: r)
  show "\<exists>m. message (validateARN service arn) = Some m \<and> contains m ''service mismatch''"
    using contains_mismatch by (simp add: r)
next
  assume a: "has_shape arn service"
  then have t: "regex_test arnPattern_validate arn" "arn \<noteq> []"
    "nth_opt (js_split CHR '':'' arn) 2 = Some service"
    using regex_test_validate_iff has_shape_not_empty has_shape_third_field by blast+
  then show "validateARN service arn = \<lparr>valid = True, message = None, suggestions = None\<rparr>"
    by (simp add: validateARN_def)
next
  assume "has_shape arn sv"
  then show "five_colon_shape arn" by (rule has_shape_five_colon)
qed

text \<open>
  The scenarios of the specification and a valid bucket identifier.
\<close>

theorem validateARN_cases_witness:
  "(\<forall>sv. \<not> has_shape ''not-an-arn'' sv) \<and>
   has_shape ''arn:aws:ec2:us-east-1:123456789012:instance/i-123'' ''ec2'' \<and>
   has_shape ''arn:aws:s3:::my-bucket/*'' ''s3'' \<and>
   five_colon_shape ''arn:aws:s3:::my-bucket/*'' \<and>
   \<not> valid (validateARN ''s3'' []) \<and>
   (\<exists>m. message (validateARN ''s3'' []) = Some m \<and> contains m ''required'') \<and>
   \<not> valid (validateARN ''s3'' ''not-an-arn'') \<and>
   (\<exists>m. message (validateARN ''s3'' ''not-an-arn'') = Some m \<and>
        contains m ''Invalid ARN format'') \<and>
   suggestions (validateARN ''s3'' ''not-an-arn'')
     = Some [''arn:aws:s3:region:account-id:resource''] \<and>
   \<not> valid (validateARN ''s3'' ''arn:aws:ec2:us-east-1:123456789012:instance/i-123'') \<and>
   (\<exists>m. message (validateARN ''s3'' ''arn:aws:ec2:us-east-1:123456789012:instance/i-123'')
          = Some m \<and> contains m ''service mismatch'') \<and>
   validateARN ''s3'' ''arn:aws:s3:::my-bucket/*''
     = \<lparr>valid = True, message = None, suggestions = None\<rparr>"
proof -
  have h1: "''not-an-arn'' \<noteq> [] \<and> (\<forall>sv. \<not> has_shape ''not-an-arn'' sv)"
    by (simp add: has_shape_def)
  have "''arn:aws:ec2:us-east-1:123456789012:instance/i-123''
      = ''arn:aws:'' @ ''ec2'' @ '':'' @ ''us-east-1'' @ '':'' @ ''123456789012'' @ '':'' @
        ''instance/i-123'' \<and> ''ec2'' \<noteq> [] \<and>
        list_all lower_digit_hyphen ''ec2'' \<and> list_all lower_digit_hyphen ''us-east-1'' \<and>
        list_all digit ''123456789012'' \<and> list_all dot ''instance/i-123''"
    by (simp add: lower_digit_hyphen_def digit_def dot_def)
  then have h2: "has_shape ''arn:aws:ec2:us-east-1:123456789012:instance/i-123'' ''ec2''"
    unfolding has_shape_def by blast
  have "''arn:aws:s3:::my-bucket/*''
      = ''arn:aws:'' @ ''s3'' @ '':'' @ [] @ '':'' @ [] @ '':'' @ ''my-bucket/*'' \<and> ''s3'' \<noteq> [] \<and>
        list_all lower_digit_hyphen ''s3'' \<and> list_all lower_digit_hyphen [] \<and>
        list_all digit [] \<and> list_all dot ''my-bucket/*''"
    by (simp add: lower_digit_hyphen_def digit_def dot_def)
  then have h3: "has_shape ''arn:aws:s3:::my-bucket/*'' ''s3''"
    unfolding has_shape_def by blast
  have n: "''ec2'' \<noteq> ''s3''" by simp
  have c1: "\<not> valid (validateARN ''s3'' []) \<and>
      (\<exists>m. message (validateARN ''s3'' []) = Some m \<and> contains m ''required'')"
    using validateARN_cases [of "[]" "''s3''"] by blast
  have c2: "\<not> valid (validateARN ''s3'' ''not-an-arn'') \<and>
      (\<exists>m. message (validateARN ''s3'' ''not-an-arn'') = Some m \<and>
        contains m ''Invalid ARN format'') \<and>
      suggestions (validateARN ''s3'' ''not-an-arn'')
        = Some [''arn:aws:'' @ ''s3'' @ '':region:account-id:resource'']"
    using validateARN_cases [of "''not-an-arn''" "''s3''"] h1 by blast
  have c3: "\<not> valid (validateARN ''s3'' ''arn:aws:ec2:us-east-1:123456789012:instance/i-123'') \<and>
      (\<exists>m. message (validateARN ''s3'' ''arn:aws:ec2:us-east-1:123456789012:instance/i-123'')
          = Some m \<and> contains m ''service mismatch'')"
    using validateARN_cases [of "''arn:aws:ec2:us-east-1:123456789012:instance/i-123''" "''s3''"
        "''ec2''"] h2 n by blast
  have c4: "validateARN ''s3'' ''arn:aws:s3:::my-bucket/*''
     = \<lparr>valid = True, message = None, suggestions = None\<rparr>"
    using validateARN_cases [of "''arn:aws:s3:::my-bucket/*''" "''s3''"] h3 by blast
  have c5: "five_colon_shape ''arn:aws:s3:::my-bucket/*''"
    using validateARN_cases [of "''arn:aws:s3:::my-bucket/*''" "''s3''" "''s3''"] h3 by blast
  from h1 h2 h3 c1 c2 c3 c4 c5 show ?thesis by simp
qed

text \<open>
  The identifier of an AWS managed policy, \<open>arn:aws:iam::aws:policy/AdministratorAccess\<close>,
  has the literal domain tag, five colons and a trailing field, the general grammar
  accepts it, and its third field is \<open>iam\<close>; \<open>validateARN\<close> with the service \<open>iam\<close> answers
  \<open>Invalid ARN format\<close>, because the account field \<open>aws\<close> is not made of digits. The same
  happens to \<open>arn:aws:S3:::bucket\<close> with the service \<open>S3\<close>, whose service field has an
  upper-case letter.
\<close>

theorem validateARN_rejects_five_colon_shape:
  "five_colon_shape ''arn:aws:iam::aws:policy/AdministratorAccess'' \<and>
   validateARNFormat ''arn:aws:iam::aws:policy/AdministratorAccess'' \<and>
   nth_opt (js_split CHR '':'' ''arn:aws:iam::aws:policy/AdministratorAccess'') 2 = Some ''iam'' \<and>
   validateARN ''iam'' ''arn:aws:iam::aws:policy/AdministratorAccess'' =
     \<lparr>valid = False, message = Some ''Invalid ARN format'',
      suggestions = Some [''arn:aws:iam:region:account-id:resource'']\<rparr> \<and>
   five_colon_shape ''arn:aws:S3:::bucket'' \<and>
   nth_opt (js_split CHR '':'' ''arn:aws:S3:::bucket'') 2 = Some ''S3'' \<and>
   validateARN ''S3'' ''arn:aws:S3:::bucket'' =
     \<lparr>valid = False, message = Some ''Invalid ARN format'',
      suggestions = Some [''arn:aws:S3:region:account-id:resource'']\<rparr>"
proof -
  have a: "five_colon_shape ''arn:aws:iam::aws:policy/AdministratorAccess'' \<and>
      nth_opt (js_split CHR '':'' ''arn:aws:iam::aws:policy/AdministratorAccess'') 2 = Some ''iam''"
    by (simp add: five_colon_shape_def numeral_2_eq_2)
  have b: "validateARNFormat ''arn:aws:iam::aws:policy/AdministratorAccess''"
    by (simp add: validateARNFormat_def regex_test_def regex_exec_def arnPattern_format_def
        lit_def not_colon_def dot_def)
  have c: "validateARN ''iam'' ''arn:aws:iam::aws:policy/AdministratorAccess'' =
     \<lparr>valid = False, message = Some ''Invalid ARN format'',
      suggestions = Some [''arn:aws:iam:region:account-id:resource'']\<rparr>"
    by (simp add: validateARN_def regex_test_def regex_exec_def arnPattern_validate_def
        lit_def lower_digit_hyphen_def digit_def dot_def)
  have d: "five_colon_shape ''arn:aws:S3:::bucket'' \<and>
      nth_opt (js_split CHR '':'' ''arn:aws:S3:::bucket'') 2 = Some ''S3''"
    by (simp add: five_colon_shape_def numeral_2_eq_2)
  have e: "validateARN ''S3'' ''arn:aws:S3:::bucket'' =
     \<lparr>valid = False, message = Some ''Invalid ARN format'',
      suggestions = Some [''arn:aws:S3:region:account-id:resource'']\<rparr>"
    by (simp add: validateARN_def regex_test_def regex_exec_def arnPattern_validate_def
        lit_def lower_digit_hyphen_def digit_def dot_def)
  from a b c d e show ?thesis by simp
qed


section \<open>matchARNPattern (utils/arn.ts)\<close>

text \<open>
  \<open>matchARNPattern\<close> builds the source of a regular expression from its pattern and hands
  it to \<open>new RegExp\<close>, which throws a \<open>SyntaxError\<close> on a malformed source. The model
  compiles the sources of the fragment above (assertions, \<open>.\<close>, literal and escaped
  characters, greedy \<open>*\<close> and \<open>+\<close>) and answers \<open>Outside_fragment\<close> on any other
  construct (groups, classes, alternation, braces, lazy and optional quantifiers, escapes
  other than of a syntax character).
\<close>

datatype 'a outcome = Returns 'a | Throws_SyntaxError | Outside_fragment

definition syntax_character :: "char \<Rightarrow> bool" where
  "syntax_character c = (c \<in> set ''^$.*+?()[]{}|/'' \<or> c = CHR 0x5C)"

definition quantifier_character :: "char \<Rightarrow> bool" where
  "quantifier_character c = (c = CHR ''*'' \<or> c = CHR ''+'' \<or> c = CHR ''?'')"

text \<open>
  The quantifier that follows an atom, and the rest of the source.
\<close>

fun take_quantifier :: "string \<Rightarrow> (quantifier \<times> string) outcome" where
  "take_quantifier [] = Returns (Once, [])"
| "take_quantifier (c # cs) =
     (if c = CHR ''*'' \<or> c = CHR ''+'' then
        (case cs of
           [] \<Rightarrow> Returns (if c = CHR ''*'' then Star else Plus, [])
         | d # ds \<Rightarrow>
             if d = CHR ''?'' then Outside_fragment
             else Returns (if c = CHR ''*'' then Star else Plus, cs))
      else if c = CHR ''?'' \<or> c = CHR ''{'' then Outside_fragment
      else Returns (Once, c # cs))"

lemma take_quantifier_length:
  "take_quantifier s = Returns (q, r) \<Longrightarrow> length r \<le> length s"
  by (cases s) (auto split: if_splits list.splits)

text \<open>
  An assertion cannot be quantified and a quantifier needs an atom before it: both are
  the error \<open>Nothing to repeat\<close>.
\<close>

function new_RegExp :: "string \<Rightarrow> node list outcome" where
  "new_RegExp [] = Returns []"
| "new_RegExp (c # cs) =
     (if c = CHR ''^'' \<or> c = CHR ''$'' then
        (case cs of
           [] \<Rightarrow> Returns [if c = CHR ''^'' then Assert_start else Assert_end]
         | d # ds \<Rightarrow>
             if quantifier_character d then Throws_SyntaxError
             else (case new_RegExp cs of
                     Returns ns \<Rightarrow> Returns ((if c = CHR ''^'' then Assert_start else Assert_end) # ns)
                   | Throws_SyntaxError \<Rightarrow> Throws_SyntaxError
                   | Outside_fragment \<Rightarrow> Outside_fragment))
      else if quantifier_character c then Throws_SyntaxError
      else if c \<in> set ''()[]{}|'' then Outside_fragment
      else if c = CHR 0x5C then
        (case cs of
           [] \<Rightarrow> Throws_SyntaxError
         | d # ds \<Rightarrow>
             if syntax_character d then
               (case take_quantifier ds of
                  Returns qr \<Rightarrow>
                    (case new_RegExp (snd qr) of
                       Returns ns \<Rightarrow> Returns (Atom (\<lambda>x. x = d) (fst qr) False # ns)
                     | Throws_SyntaxError \<Rightarrow> Throws_SyntaxError
                     | Outside_fragment \<Rightarrow> Outside_fragment)
                | Throws_SyntaxError \<Rightarrow> Throws_SyntaxError
                | Outside_fragment \<Rightarrow> Outside_fragment)
             else Outside_fragment)
      else
        (case take_quantifier cs of
           Returns qr \<Rightarrow>
             (case new_RegExp (snd qr) of
                Returns ns \<Rightarrow>
                  Returns (Atom (if c = CHR ''.'' then dot else (\<lambda>x. x = c)) (fst qr) False # ns)
              | Throws_SyntaxError \<Rightarrow> Throws_SyntaxError
              | Outside_fragment \<Rightarrow> Outside_fragment)
         | Throws_SyntaxError \<Rightarrow> Throws_SyntaxError
         | Outside_fragment \<Rightarrow> Outside_fragment))"
  by pat_completeness auto
termination
proof (relation "measure length", goal_cases)
  case 1
  show ?case by simp
next
  case (2 c cs d ds)
  then show ?case by simp
next
  case (3 c cs d ds qr)
  then show ?case
    using take_quantifier_length [of ds "fst qr" "snd qr"] by simp
next
  case (4 c cs qr)
  then show ?case
    using take_quantifier_length [of cs "fst qr" "snd qr"] by simp
qed

text \<open>
  \<open>s.replace(/c/g, w)\<close> for a single character \<open>c\<close>. \<open>matchARNPattern\<close> rewrites \<open>*\<close> to
  \<open>.*\<close>, \<open>?\<close> to \<open>.\<close> and \<open>$\<close> to an escaped \<open>$\<close>, and anchors the result.
\<close>

definition replace_char :: "char \<Rightarrow> string \<Rightarrow> string \<Rightarrow> string" where
  "replace_char c w s = concat (map (\<lambda>x. if x = c then w else [x]) s)"

definition matchARNPattern :: "string \<Rightarrow> string \<Rightarrow> bool outcome" where
  "matchARNPattern arn pattern =
     (let regexPattern =
            replace_char CHR ''$'' [CHR 0x5C, CHR ''$'']
              (replace_char CHR ''?'' ''.'' (replace_char CHR ''*'' ''.*'' pattern))
      in case new_RegExp (''^'' @ regexPattern @ ''$'') of
           Returns regex \<Rightarrow> Returns (regex_test regex arn)
         | Throws_SyntaxError \<Rightarrow> Throws_SyntaxError
         | Outside_fragment \<Rightarrow> Outside_fragment)"

lemmas match_eval = matchARNPattern_def replace_char_def regex_test_def regex_exec_def
  syntax_character_def quantifier_character_def dot_def Let_def

text \<open>
  The cases of the repository's test suite.
\<close>

lemma matchARNPattern_repository_tests:
  "matchARNPattern ''arn:aws:s3:::my-bucket/path'' ''arn:aws:s3:::my-bucket/path'' = Returns True"
  "matchARNPattern ''arn:aws:s3:::my-bucket/path/to/file.txt'' ''arn:aws:s3:::my-bucket/*''
     = Returns True"
  "matchARNPattern ''arn:aws:s3:::my-bucket1'' ''arn:aws:s3:::my-bucket?'' = Returns True"
  "matchARNPattern ''arn:aws:s3:::my-bucket/file.txt'' ''arn:aws:ec2:*'' = Returns False"
  "matchARNPattern ''arn:aws:s3:::bucket$special'' ''arn:aws:s3:::bucket$special'' = Returns True"
  by (simp_all add: match_eval)

text \<open>
  C2. Characters of the pattern other than \<open>*\<close>, \<open>?\<close> and \<open>$\<close> reach the regular
  expression unescaped. A dot in a pattern matches any character; a literal identifier
  with a \<open>+\<close> does not match itself; and a literal pattern can make the call throw.
\<close>

theorem matchARNPattern_metacharacters:
  "matchARNPattern ''arn:aws:s3:::myxbucket'' ''arn:aws:s3:::my.bucket'' = Returns True \<and>
   matchARNPattern ''arn:aws:iam::1:user/a+b'' ''arn:aws:iam::1:user/a+b'' = Returns False \<and>
   matchARNPattern ''c++'' ''c++'' = Throws_SyntaxError"
  by (simp add: match_eval)

section \<open>generatePolicy (PolicyCore.ts)\<close>









subsection \<open>One statement per identifier\<close>































end
